theory Spec2Isabelle
  imports Complex_Main "HOL-Library.Word"
begin

section \<open>The conversion hook (useFFmpeg.ts)\<close>

subsection \<open>Values\<close>

text \<open>
  JavaScript numbers are modelled as reals (no NaN, no rounding) and a \<open>Uint8Array\<close> as a
  list of bytes. A JavaScript string is a sequence of UTF-16 code units: file names, and the
  workspace names and command arguments built from them, are modelled so, \<open>js\<close> writing
  an ASCII literal. Messages, URLs and MIME types, which the code only passes on or
  concatenates, are kept as \<open>string\<close>. A value thrown by an awaited operation is either an
  \<open>Error\<close> object (\<open>JsError\<close>: name, message, rendered truthy cause) or some other value,
  kept as what \<open>String(err)\<close> renders.
\<close>

type_synonym bytes = "8 word list"

type_synonym jsstring = "16 word list"

definition js :: "string \<Rightarrow> jsstring" where
  "js s = map (\<lambda>c. of_nat (of_char c)) s"

definition dot :: "16 word" where
  "dot = 46"

datatype thrown = JsError string string "string option" | NonError string

datatype FFmpegState = Idle | Loading | Ready | Error

datatype mode = Fast | Reencode

record File =
  name :: jsstring
  content :: bytes

datatype Blob = Blob bytes string

record ConversionProgress =
  progress :: real
  time :: "real option"

record DebugInfo =
  userAgent :: string
  crossOriginIsolated :: bool
  debug_error :: string
  failedUrl :: "string option"
  timestamp :: string

text \<open>
  What the host environment answers when the hook asks. \<open>toLowerCase\<close> is the platform's
  \<open>String.prototype.toLowerCase\<close>, taken as it is.
\<close>

record env =
  toLowerCase :: "jsstring \<Rightarrow> jsstring"
  hasSharedArrayBuffer :: bool
  navigatorUserAgent :: string
  windowCrossOriginIsolated :: bool
  locationOrigin :: string
  isoNow :: string

text \<open>
  A progress callback is identified by a number (the job it belongs to). The log records,
  in order, every call made on the engine and its helpers, every invocation of a progress
  callback, and every \<open>cancel()\<close>.
\<close>

type_synonym callback = nat

datatype engine_call =
    NewFFmpeg
  | OnLog
  | OnProgress callback
  | ToBlobURL string string
  | FFLoad
  | FetchFile jsstring
  | WriteFile jsstring bytes
  | Exec "jsstring list"
  | ReadFile jsstring
  | DeleteFile jsstring

datatype obs = Called engine_call | Delivered callback ConversionProgress | CancelRequested

text \<open>
  A promise returned by \<open>doLoad\<close> is an index into \<open>promises\<close>. A \<open>doLoad\<close> suspended at one
  of its three awaits is an entry of \<open>inflight\<close>: its promise and the await it waits at.
  \<open>waiters\<close> are the \<open>ensureLoaded\<close> calls suspended at \<open>await loadPromise\<close>.
\<close>

datatype promise = Pending | Fulfilled bool

datatype stage = AwaitCoreURL | AwaitWasmURL | AwaitLoad

record hook =
  loadPromise :: "nat option"
  ffmpegInstance :: "nat option"
  isReady :: bool
  state :: FFmpegState
  error :: "string option"
  debugInfo :: "DebugInfo option"
  abortRef :: bool
  listeners :: "callback list"
  promises :: "promise list"
  inflight :: "(nat \<times> stage) list"
  waiters :: "nat list"
  trace :: "obs list"

definition initial :: hook where
  "initial = \<lparr>loadPromise = None, ffmpegInstance = None, isReady = False, state = Idle,
     error = None, debugInfo = None, abortRef = False, listeners = [], promises = [],
     inflight = [], waiters = [], trace = []\<rparr>"

definition called :: "engine_call \<Rightarrow> hook \<Rightarrow> hook" where
  "called c h = h\<lparr>trace := trace h @ [Called c]\<rparr>"

subsection \<open>getExtension\<close>

text \<open>
  The regular expression \<open>/\.[^.]+$/\<close> (no flags, so it works on code units) tried at the
  start of the remaining input: a dot, then one or more code units that are not a dot,
  then the end of the input.
\<close>

fun matchesHere :: "jsstring \<Rightarrow> bool" where
  "matchesHere [] = False"
| "matchesHere (c # cs) = (c = dot \<and> cs \<noteq> [] \<and> dot \<notin> set cs)"

text \<open>\<open>filename.match(re)\<close>: the leftmost position where the expression matches; \<open>match[0]\<close>.\<close>

fun match :: "jsstring \<Rightarrow> jsstring option" where
  "match [] = None"
| "match (c # cs) = (if matchesHere (c # cs) then Some (c # cs) else match cs)"

definition getExtension :: "env \<Rightarrow> jsstring \<Rightarrow> jsstring" where
  "getExtension e filename =
     (case match filename of Some m \<Rightarrow> toLowerCase e m | None \<Rightarrow> js ''.mp4'')"

text \<open>
  The spec's words, for comparison: the final dot-suffix of a filename is what follows
  (and includes) its last dot, when something follows it.
\<close>

definition finalDotSuffix :: "jsstring \<Rightarrow> jsstring option" where
  "finalDotSuffix filename =
     (if dot \<in> set filename \<and> last filename \<noteq> dot
      then Some (dot # rev (takeWhile (\<lambda>c. c \<noteq> dot) (rev filename)))
      else None)"

subsection \<open>cancel, the progress listener, cleanup\<close>

datatype event = Progress real real | Cancel

definition cancel :: "hook \<Rightarrow> hook" where
  "cancel h = h\<lparr>abortRef := True, trace := trace h @ [CancelRequested]\<rparr>"

text \<open>
  One progress event of the engine reaches every listener registered with
  \<open>ffmpeg.on('progress', ...)\<close>, in registration order; each of them returns at once when
  the abort flag is set and otherwise calls its \<open>onProgress\<close>.
\<close>

definition progressEvent :: "real \<Rightarrow> real \<Rightarrow> hook \<Rightarrow> hook" where
  "progressEvent p t h =
     (if abortRef h then h
      else h\<lparr>trace := trace h @
             map (\<lambda>cb. Delivered cb \<lparr>progress = min (p * 100) 99, time = Some t\<rparr>)
               (listeners h)\<rparr>)"

text \<open>What happens while an awaited operation is pending.\<close>

fun during :: "event list \<Rightarrow> hook \<Rightarrow> hook" where
  "during [] h = h"
| "during (Progress p t # es) h = during es (progressEvent p t h)"
| "during (Cancel # es) h = during es (cancel h)"

text \<open>
  An awaited operation of a run: the events that arrive while it is pending, then how it
  settles (\<open>Inl\<close>: it rejects with the thrown value).
\<close>

type_synonym 'a awaited = "event list \<times> (thrown + 'a)"

record script =
  fetchFile_await :: "bytes awaited"
  writeFile_await :: "unit awaited"
  exec_await :: "int awaited"
  readFile_await :: "bytes awaited"
  deleteFile_awaits :: "unit awaited list"

text \<open>
  \<open>cleanup\<close>: one \<open>deleteFile\<close> per file, awaited, its rejection ignored. A delete the script
  says nothing about resolves with no event.
\<close>

fun cleanup :: "unit awaited list \<Rightarrow> jsstring list \<Rightarrow> hook \<Rightarrow> hook" where
  "cleanup aws [] h = h"
| "cleanup aws (f # files) h =
     cleanup (tl aws) files
       (during (case aws of [] \<Rightarrow> [] | a # _ \<Rightarrow> fst a) (called (DeleteFile f) h))"

subsection \<open>convert\<close>

definition args :: "mode \<Rightarrow> jsstring \<Rightarrow> jsstring \<Rightarrow> jsstring list" where
  "args m inputName outputName =
     (case m of
        Fast \<Rightarrow>
          [js ''-i'', inputName, js ''-c'', js ''copy'', js ''-movflags'', js ''+faststart'',
           outputName]
      | Reencode \<Rightarrow>
          [js ''-i'', inputName, js ''-c:v'', js ''libx264'', js ''-preset'', js ''fast'',
           js ''-crf'', js ''23'', js ''-c:a'', js ''aac'', js ''-b:a'', js ''128k'',
           js ''-movflags'', js ''+faststart'', outputName])"

text \<open>
  The body of the \<open>try\<close> block: \<open>Inl\<close> is the value it throws. Only the awaited
  operations throw; \<open>ffmpeg.on\<close> and the caller's \<open>onProgress\<close> are taken not to. The
  listener stays registered when the run is over (the hook never calls \<open>off\<close>).
\<close>

definition convertBody ::
  "env \<Rightarrow> script \<Rightarrow> File \<Rightarrow> mode \<Rightarrow> callback \<Rightarrow> hook
     \<Rightarrow> (thrown + Blob option) \<times> hook" where
  "convertBody e sc file m onProgress h =
     (let inputName = js ''input'' @ getExtension e (name file);
          outputName = js ''output.mp4'';
          h1 = called (OnProgress onProgress) (h\<lparr>listeners := listeners h @ [onProgress]\<rparr>);
          h2 = during (fst (fetchFile_await sc)) (called (FetchFile (name file)) h1)
      in case snd (fetchFile_await sc) of
           Inl err \<Rightarrow> (Inl err, h2)
         | Inr data \<Rightarrow>
             let h3 = during (fst (writeFile_await sc)) (called (WriteFile inputName data) h2)
             in case snd (writeFile_await sc) of
                  Inl err \<Rightarrow> (Inl err, h3)
                | Inr _ \<Rightarrow>
                    let h4 = during (fst (exec_await sc))
                               (called (Exec (args m inputName outputName)) h3)
                    in case snd (exec_await sc) of
                         Inl err \<Rightarrow> (Inl err, h4)
                       | Inr _ \<Rightarrow>
                           if abortRef h4
                           then (Inr None,
                                 cleanup (deleteFile_awaits sc) [inputName, outputName] h4)
                           else
                             let h5 = during (fst (readFile_await sc))
                                        (called (ReadFile outputName) h4)
                             in case snd (readFile_await sc) of
                                  Inl err \<Rightarrow> (Inl err, h5)
                                | Inr out \<Rightarrow>
                                    let h6 = cleanup (deleteFile_awaits sc)
                                               [inputName, outputName] h5
                                    in (Inr (Some (Blob out ''video/mp4'')),
                                        h6\<lparr>trace := trace h6 @
                                          [Delivered onProgress
                                             \<lparr>progress = 100, time = None\<rparr>]\<rparr>))"

definition convert ::
  "env \<Rightarrow> script \<Rightarrow> File \<Rightarrow> mode \<Rightarrow> callback \<Rightarrow> hook \<Rightarrow> Blob option \<times> hook" where
  "convert e sc file m onProgress h =
     (if ffmpegInstance h = None \<or> \<not> isReady h then (None, h)
      else
        case convertBody e sc file m onProgress (h\<lparr>abortRef := False\<rparr>) of
          (Inr result, h') \<Rightarrow> (result, h')
        | (Inl err, h') \<Rightarrow>
            (None,
             h'\<lparr>error := Some (case err of JsError n msg c \<Rightarrow> msg
                                | NonError s \<Rightarrow> ''Conversion failed'')\<rparr>))"

subsection \<open>doLoad and ensureLoaded\<close>

definition createDebugInfo :: "env \<Rightarrow> string \<Rightarrow> string option \<Rightarrow> DebugInfo" where
  "createDebugInfo e errorMsg url =
     \<lparr>userAgent = navigatorUserAgent e, crossOriginIsolated = windowCrossOriginIsolated e,
      debug_error = errorMsg, failedUrl = url, timestamp = isoNow e\<rparr>"

text \<open>
  \<open>doLoad\<close> from its call to its first await or its early return: the promise the call
  returns, and the state it leaves. The engine object it creates is numbered like its
  promise. Creating the engine object and subscribing to its log are taken not to throw,
  so the \<open>catch\<close> block runs only after an await.
\<close>

definition doLoad :: "env \<Rightarrow> hook \<Rightarrow> nat \<times> hook" where
  "doLoad e h =
     (let p = length (promises h);
          h1 = h\<lparr>state := Loading, error := None, debugInfo := None\<rparr>
      in if \<not> hasSharedArrayBuffer e then
           let msg = ''SharedArrayBuffer not available. Please use Chrome/Edge/Firefox with HTTPS.''
           in (p, h1\<lparr>error := Some msg, debugInfo := Some (createDebugInfo e msg None),
                     state := Error, promises := promises h @ [Fulfilled False]\<rparr>)
         else
           let baseURL = locationOrigin e @ ''/ffmpeg'';
               h2 = called (ToBlobURL (baseURL @ ''/ffmpeg-core.js'') ''text/javascript'')
                      (called OnLog (called NewFFmpeg (h1\<lparr>ffmpegInstance := Some p\<rparr>)))
           in (p, h2\<lparr>promises := promises h @ [Pending],
                     inflight := inflight h @ [(p, AwaitCoreURL)]\<rparr>))"

definition fulfil :: "nat \<Rightarrow> bool \<Rightarrow> hook \<Rightarrow> hook" where
  "fulfil p b h = h\<lparr>promises := (promises h)[p := Fulfilled b]\<rparr>"

text \<open>The \<open>catch\<close> block of \<open>doLoad\<close>.\<close>

definition doLoadCatch :: "env \<Rightarrow> thrown \<Rightarrow> hook \<Rightarrow> hook" where
  "doLoadCatch e err h =
     (let errorMessage =
            (case err of
               JsError n msg c \<Rightarrow> n @ '': '' @ msg
             | NonError s \<Rightarrow> if s = [] then ''Failed to load FFmpeg'' else s);
          fullError =
            (case err of
               JsError n msg (Some c) \<Rightarrow> errorMessage @ '' | Cause: '' @ c
             | _ \<Rightarrow> errorMessage)
      in h\<lparr>debugInfo := Some (createDebugInfo e fullError None), error := Some fullError,
            state := Error, loadPromise := None, ffmpegInstance := None, isReady := False\<rparr>)"

text \<open>
  \<open>doLoad\<close> with promise \<open>p\<close>, suspended at \<open>st\<close>, goes on when what it awaits settles
  (\<open>Some err\<close>: it rejects) until its next await or its return.
\<close>

definition doLoadResume :: "env \<Rightarrow> nat \<Rightarrow> stage \<Rightarrow> thrown option \<Rightarrow> hook \<Rightarrow> hook" where
  "doLoadResume e p st r h =
     (case r of
        Some err \<Rightarrow> fulfil p False (doLoadCatch e err h)
      | None \<Rightarrow>
          (case st of
             AwaitCoreURL \<Rightarrow>
               (called (ToBlobURL (locationOrigin e @ ''/ffmpeg'' @ ''/ffmpeg-core.wasm'')
                          ''application/wasm'') h)
                 \<lparr>inflight := inflight h @ [(p, AwaitWasmURL)]\<rparr>
           | AwaitWasmURL \<Rightarrow> (called FFLoad h)\<lparr>inflight := inflight h @ [(p, AwaitLoad)]\<rparr>
           | AwaitLoad \<Rightarrow> fulfil p True (h\<lparr>isReady := True, state := Ready\<rparr>)))"

text \<open>
  What an \<open>async\<close> call hands its caller: a promise already settled with a value, or one
  that follows promise \<open>p\<close>.
\<close>

datatype returned = Now bool | Later nat

definition ensureLoaded :: "env \<Rightarrow> hook \<Rightarrow> returned \<times> hook" where
  "ensureLoaded e h =
     (if isReady h \<and> ffmpegInstance h \<noteq> None then (Now True, h\<lparr>state := Ready\<rparr>)
      else
        case loadPromise h of
          Some p \<Rightarrow> (Later p, h\<lparr>state := Loading, waiters := waiters h @ [p]\<rparr>)
        | None \<Rightarrow> (case doLoad e h of (p, h') \<Rightarrow> (Later p, h'\<lparr>loadPromise := Some p\<rparr>)))"

definition promiseState :: "hook \<Rightarrow> nat \<Rightarrow> promise" where
  "promiseState h p = (if p < length (promises h) then promises h ! p else Pending)"

definition outcome :: "hook \<Rightarrow> returned \<Rightarrow> bool option" where
  "outcome h r =
     (case r of
        Now b \<Rightarrow> Some b
      | Later p \<Rightarrow> (case promiseState h p of Fulfilled b \<Rightarrow> Some b | Pending \<Rightarrow> None))"

text \<open>
  The microtasks after a step: every \<open>ensureLoaded\<close> suspended at \<open>await loadPromise\<close> whose
  promise has settled goes on with \<open>setState(result ? 'ready' : 'error')\<close> and returns.
\<close>

definition microtasks :: "hook \<Rightarrow> hook" where
  "microtasks h =
     (foldl (\<lambda>h' p. case promiseState h p of
                       Fulfilled b \<Rightarrow> h'\<lparr>state := (if b then Ready else Error)\<rparr>
                     | Pending \<Rightarrow> h')
        h (waiters h))
     \<lparr>waiters := filter (\<lambda>p. promiseState h p = Pending) (waiters h)\<rparr>"

text \<open>
  The loader as a transition system: a caller invokes \<open>ensureLoaded\<close>, or the operation
  that the \<open>k\<close>-th suspended \<open>doLoad\<close> awaits settles.
\<close>

datatype action = EnsureLoaded | Settle nat "thrown option"

definition step :: "env \<Rightarrow> action \<Rightarrow> hook \<Rightarrow> hook" where
  "step e a h =
     (case a of
        EnsureLoaded \<Rightarrow> microtasks (snd (ensureLoaded e h))
      | Settle k r \<Rightarrow>
          if k < length (inflight h)
          then microtasks
                 (doLoadResume e (fst (inflight h ! k)) (snd (inflight h ! k)) r
                    (h\<lparr>inflight := take k (inflight h) @ drop (Suc k) (inflight h)\<rparr>))
          else h)"

fun run :: "env \<Rightarrow> action list \<Rightarrow> hook \<Rightarrow> hook" where
  "run e [] h = h"
| "run e (a # as) h = run e as (step e a h)"

section \<open>The queue page (Home)\<close>

text \<open>
  \<open>crypto.randomUUID()\<close> is modelled as a counter: every identifier drawn is new. The page
  state kept is the queue, the toasts and \<open>processingRef\<close>; a \<open>startProcessing\<close> suspended
  in its loop is an entry of \<open>passes\<close> (its snapshot, the item whose conversion it awaits,
  the items still to come). \<open>simulated\<close> logs every call of \<open>simulateConversion\<close>.

  \<open>queue\<close> is the current state, which the updaters passed to \<open>setQueue\<close> work on.
  \<open>rendered\<close> is the queue of the last render: it is what the variable \<open>queue\<close> in the
  handlers' closures holds and what the buttons are drawn from. A render may come at any
  moment after a change, so \<open>rendered\<close> can lag behind \<open>queue\<close>.
\<close>

datatype FileStatus = Queued | Converting | Completed | ItemError

record QueueItem =
  id' :: nat
  item_file :: File
  status :: FileStatus
  item_progress :: real
  item_error :: "string option"

datatype ToastType = Success | ErrorToast | Info

record Toast =
  toast_id :: nat
  toast_type :: ToastType
  message :: string

record pass =
  queuedItems :: "QueueItem list"
  awaiting :: QueueItem
  remaining :: "QueueItem list"

record page =
  queue :: "QueueItem list"
  rendered :: "QueueItem list"
  toasts :: "Toast list"
  processingRef :: bool
  passes :: "pass list"
  nextUUID :: nat
  simulated :: "QueueItem list"

definition emptyPage :: page where
  "emptyPage = \<lparr>queue = [], rendered = [], toasts = [], processingRef = False, passes = [], nextUUID = 0,
     simulated = []\<rparr>"

text \<open>A number in a template string.\<close>

function decimal :: "nat \<Rightarrow> string" where
  "decimal n =
     (if n < 10 then [char_of (48 + n)] else decimal (n div 10) @ [char_of (48 + n mod 10)])"
  by pat_completeness auto
termination
  by (relation "measure (\<lambda>n. n)") auto

declare decimal.simps [simp del]

definition plural :: "nat \<Rightarrow> string" where
  "plural n = (if n > 1 then ''s'' else [])"

definition showToast :: "ToastType \<Rightarrow> string \<Rightarrow> page \<Rightarrow> page" where
  "showToast ty msg pg =
     pg\<lparr>toasts := toasts pg @ [\<lparr>toast_id = nextUUID pg, toast_type = ty, message = msg\<rparr>],
        nextUUID := Suc (nextUUID pg)\<rparr>"

fun newItems :: "nat \<Rightarrow> File list \<Rightarrow> QueueItem list" where
  "newItems u [] = []"
| "newItems u (f # fs) =
     \<lparr>id' = u, item_file = f, status = Queued, item_progress = 0, item_error = None\<rparr>
       # newItems (Suc u) fs"

definition addFiles :: "File list \<Rightarrow> page \<Rightarrow> page" where
  "addFiles files pg =
     showToast Info
       (''Added '' @ decimal (length files) @ '' file'' @ plural (length files) @ '' to queue'')
       (pg\<lparr>queue := queue pg @ newItems (nextUUID pg) files,
           nextUUID := nextUUID pg + length files\<rparr>)"

text \<open>
  \<open>simulateConversion(item)\<close> creates a promise and an interval timer; the queue changes
  only when the timer fires.
\<close>

definition simulateConversion :: "QueueItem \<Rightarrow> page \<Rightarrow> page" where
  "simulateConversion item pg = pg\<lparr>simulated := simulated pg @ [item]\<rparr>"

text \<open>
  The loop of \<open>startProcessing\<close> over what is left of its snapshot: it calls
  \<open>simulateConversion\<close> for the next item and suspends, or it is through, shows the
  closing toast and clears \<open>processingRef\<close>.
\<close>

definition continuePass :: "QueueItem list \<Rightarrow> QueueItem list \<Rightarrow> page \<Rightarrow> page" where
  "continuePass snapshot rest pg =
     (case rest of
        item # rest' \<Rightarrow>
          (simulateConversion item pg)
            \<lparr>passes := passes pg @
               [\<lparr>queuedItems = snapshot, awaiting = item, remaining = rest'\<rparr>]\<rparr>
      | [] \<Rightarrow>
          (showToast Success
             (''All '' @ decimal (length snapshot) @ '' file'' @ plural (length snapshot)
                @ '' converted!'') pg)
            \<lparr>processingRef := False\<rparr>)"

definition startProcessing :: "page \<Rightarrow> page" where
  "startProcessing pg =
     (if processingRef pg then pg
      else
        let snapshot = filter (\<lambda>q. status q = Queued) (rendered pg)
        in continuePass snapshot snapshot
             (showToast Info
                (''Processing '' @ decimal (length snapshot) @ '' file''
                   @ plural (length snapshot) @ ''...'')
                (pg\<lparr>processingRef := True\<rparr>)))"

text \<open>
  The interval timer of the conversion that pass \<open>k\<close> awaits fires, \<open>r\<close> being
  \<open>elapsed / duration\<close>.
\<close>

definition tick :: "nat \<Rightarrow> real \<Rightarrow> page \<Rightarrow> page" where
  "tick k r pg =
     (if k < length (passes pg) then
        let ps = passes pg ! k;
            item = awaiting ps;
            p = min (r * 100) 100;
            pg1 = pg\<lparr>queue := map (\<lambda>q. if id' q = id' item
                                          then q\<lparr>item_progress := p, status := Converting\<rparr>
                                          else q) (queue pg)\<rparr>
        in if p \<ge> 100 then
             continuePass (queuedItems ps) (remaining ps)
               (pg1\<lparr>queue := map (\<lambda>q. if id' q = id' item
                                         then q\<lparr>status := Completed, item_progress := 100\<rparr>
                                         else q) (queue pg1),
                    passes := take k (passes pg) @ drop (Suc k) (passes pg)\<rparr>)
           else pg1
      else pg)"

definition removeItem :: "nat \<Rightarrow> page \<Rightarrow> page" where
  "removeItem i pg = pg\<lparr>queue := filter (\<lambda>q. id' q \<noteq> i) (queue pg)\<rparr>"

text \<open>
  What a call of a handler evaluates to. \<open>clearCompleted\<close> has a block body with no
  \<open>return\<close>, so its call evaluates to \<open>undefined\<close>; the count goes into the toast. (The
  other handlers are modelled by their effect on the page alone.)
\<close>

datatype returns = Undefined | Count nat

definition clearCompleted :: "page \<Rightarrow> returns \<times> page" where
  "clearCompleted pg =
     (let count = length (filter (\<lambda>q. status q = Completed) (rendered pg))
      in (Undefined,
          showToast Info (''Cleared '' @ decimal count @ '' completed file'' @ plural count)
            (pg\<lparr>queue := filter (\<lambda>q. status q \<noteq> Completed) (queue pg)\<rparr>)))"

text \<open>
  What is drawn from the last render. The row of an item shows its remove button unless
  the item is converting, and a click on it calls \<open>removeItem\<close> with the item's identifier:
  the only call of \<open>removeItem\<close>. The Start button is there when some item is queued and
  none is converting, the Clear Completed button when some item is completed.
\<close>

definition removeButtonShown :: "QueueItem \<Rightarrow> bool" where
  "removeButtonShown item = (status item \<noteq> Converting)"

definition clickRemove :: "nat \<Rightarrow> page \<Rightarrow> page" where
  "clickRemove i pg =
     (if list_ex (\<lambda>q. id' q = i \<and> removeButtonShown q) (rendered pg) then removeItem i pg
      else pg)"

definition startButtonShown :: "page \<Rightarrow> bool" where
  "startButtonShown pg \<longleftrightarrow>
     list_ex (\<lambda>q. status q = Queued) (rendered pg)
     \<and> \<not> list_ex (\<lambda>q. status q = Converting) (rendered pg)"

definition clearButtonShown :: "page \<Rightarrow> bool" where
  "clearButtonShown pg \<longleftrightarrow> list_ex (\<lambda>q. status q = Completed) (rendered pg)"

definition render :: "page \<Rightarrow> page" where
  "render pg = pg\<lparr>rendered := queue pg\<rparr>"

text \<open>
  The page as a transition system: files are added, a handler is called, the timer of the
  conversion that pass \<open>k\<close> awaits fires, the page is rendered. \<open>startProcessing\<close> and
  \<open>clearCompleted\<close> may be called at any moment, whether or not their buttons are drawn.
\<close>

datatype page_action =
    AddFiles "File list"
  | StartProcessing
  | Tick nat real
  | ClickRemove nat
  | ClearCompleted
  | Render

definition pageStep :: "page_action \<Rightarrow> page \<Rightarrow> page" where
  "pageStep a pg =
     (case a of
        AddFiles files \<Rightarrow> addFiles files pg
      | StartProcessing \<Rightarrow> startProcessing pg
      | Tick k r \<Rightarrow> tick k r pg
      | ClickRemove i \<Rightarrow> clickRemove i pg
      | ClearCompleted \<Rightarrow> snd (clearCompleted pg)
      | Render \<Rightarrow> render pg)"

fun pageRun :: "page_action list \<Rightarrow> page \<Rightarrow> page" where
  "pageRun [] pg = pg"
| "pageRun (a # as) pg = pageRun as (pageStep a pg)"

section \<open>Reading the log\<close>

text \<open>
  What the listeners write to the log for the events of one await, \<open>a\<close> being the abort
  flag when the await starts and \<open>ls\<close> the registered listeners.
\<close>

fun emitted :: "bool \<Rightarrow> callback list \<Rightarrow> event list \<Rightarrow> obs list" where
  "emitted a ls [] = []"
| "emitted a ls (Progress p t # es) =
     (if a then []
      else map (\<lambda>cb. Delivered cb \<lparr>progress = min (p * 100) 99, time = Some t\<rparr>) ls)
     @ emitted a ls es"
| "emitted a ls (Cancel # es) = CancelRequested # emitted True ls es"

text \<open>The values one callback received, in order.\<close>

definition deliveredTo :: "callback \<Rightarrow> obs list \<Rightarrow> ConversionProgress list" where
  "deliveredTo cb tr =
     concat (map (\<lambda>x. case x of Delivered cb' v \<Rightarrow> if cb' = cb then [v] else [] | _ \<Rightarrow> []) tr)"

text \<open>What was logged after the first \<open>cancel()\<close>.\<close>

definition afterCancel :: "obs list \<Rightarrow> obs list" where
  "afterCancel tr = drop 1 (dropWhile (\<lambda>x. x \<noteq> CancelRequested) tr)"

definition deleteEvents :: "unit awaited list \<Rightarrow> event list" where
  "deleteEvents aws = (case aws of [] \<Rightarrow> [] | a # _ \<Rightarrow> fst a)"

text \<open>
  The events a run lives through: those of the awaits it reaches, which is decided by how
  the awaits before settle and by whether the flag is set when the command has returned.
\<close>

definition lived :: "script \<Rightarrow> event list" where
  "lived sc =
     fst (fetchFile_await sc) @
     (case snd (fetchFile_await sc) of
        Inl _ \<Rightarrow> []
      | Inr _ \<Rightarrow>
          fst (writeFile_await sc) @
          (case snd (writeFile_await sc) of
             Inl _ \<Rightarrow> []
           | Inr _ \<Rightarrow>
               fst (exec_await sc) @
               (case snd (exec_await sc) of
                  Inl _ \<Rightarrow> []
                | Inr _ \<Rightarrow>
                    if Cancel \<in> set (fst (fetchFile_await sc) @ fst (writeFile_await sc)
                                      @ fst (exec_await sc))
                    then deleteEvents (deleteFile_awaits sc)
                           @ deleteEvents (tl (deleteFile_awaits sc))
                    else
                      fst (readFile_await sc) @
                      (case snd (readFile_await sc) of
                         Inl _ \<Rightarrow> []
                       | Inr _ \<Rightarrow>
                           deleteEvents (deleteFile_awaits sc)
                             @ deleteEvents (tl (deleteFile_awaits sc))))))"

text \<open>The progress events (fraction, time) that arrive before the first \<open>cancel()\<close>.\<close>

definition heard :: "event list \<Rightarrow> (real \<times> real) list" where
  "heard es =
     concat (map (\<lambda>e. case e of Progress p t \<Rightarrow> [(p, t)] | Cancel \<Rightarrow> [])
               (takeWhile (\<lambda>e. e \<noteq> Cancel) es))"

text \<open>A run returns a blob exactly when this holds of its script.\<close>

definition succeeds :: "script \<Rightarrow> bool" where
  "succeeds sc \<longleftrightarrow>
     \<not> isl (snd (fetchFile_await sc)) \<and> \<not> isl (snd (writeFile_await sc))
     \<and> \<not> isl (snd (exec_await sc))
     \<and> Cancel \<notin> set (fst (fetchFile_await sc) @ fst (writeFile_await sc) @ fst (exec_await sc))
     \<and> \<not> isl (snd (readFile_await sc))"

section \<open>Example inputs\<close>

text \<open>
  The example environments lower the letters A to Z and leave every other code unit as it
  is; on the file names of the examples, which are ASCII, that is what the platform's
  \<open>toLowerCase\<close> does.
\<close>

definition asciiLower :: "jsstring \<Rightarrow> jsstring" where
  "asciiLower s = map (\<lambda>w. if 65 \<le> w \<and> w \<le> 90 then w + 32 else w) s"

definition browserEnv :: env where
  "browserEnv = \<lparr>toLowerCase = asciiLower, hasSharedArrayBuffer = True, navigatorUserAgent = ''Mozilla/5.0'',
     windowCrossOriginIsolated = True, locationOrigin = ''https://videoforge.example'',
     isoNow = ''2024-01-01T00:00:00.000Z''\<rparr>"

definition noSharedMemoryEnv :: env where
  "noSharedMemoryEnv = browserEnv\<lparr>hasSharedArrayBuffer := False,
     windowCrossOriginIsolated := False\<rparr>"

definition readyHook :: hook where
  "readyHook = initial\<lparr>ffmpegInstance := Some 0, isReady := True, promises := [Fulfilled True],
     loadPromise := Some 0, state := Ready\<rparr>"

definition demoFile :: File where
  "demoFile = \<lparr>name = js ''clip.MKV'', content = [1, 2]\<rparr>"

definition demoScript :: script where
  "demoScript =
     \<lparr>fetchFile_await = ([], Inr [1, 2]), writeFile_await = ([], Inr ()),
      exec_await = ([Progress (1 / 4) 1, Progress (3 / 4) 2], Inr 0),
      readFile_await = ([], Inr [9]), deleteFile_awaits = [([], Inr ()), ([], Inr ())]\<rparr>"

definition nonMonotoneScript :: script where
  "nonMonotoneScript = demoScript\<lparr>exec_await := ([Progress (1 / 2) 1, Progress (3 / 10) 2], Inr 0)\<rparr>"

definition lateCancelScript :: script where
  "lateCancelScript = demoScript\<lparr>readFile_await := ([Cancel], Inr [9])\<rparr>"

definition earlyCancelScript :: script where
  "earlyCancelScript = demoScript\<lparr>exec_await := ([Progress (1 / 4) 1, Cancel, Progress (3 / 4) 2], Inr 0)\<rparr>"

definition execFailScript :: script where
  "execFailScript = demoScript\<lparr>exec_await := ([], Inl (JsError ''Error'' ''boom'' None))\<rparr>"

section \<open>The loader's invariant\<close>

text \<open>
  At most one \<open>doLoad\<close> is suspended. While one is, \<open>loadPromise\<close> is its promise, the
  last one created and the only one pending, and an engine object exists; while none is,
  every promise has settled.
\<close>

definition loaderInv :: "hook \<Rightarrow> bool" where
  "loaderInv h \<longleftrightarrow>
     (isReady h \<longrightarrow> ffmpegInstance h \<noteq> None)
     \<and> (case inflight h of
          [] \<Rightarrow> (\<forall>q < length (promises h). promises h ! q \<noteq> Pending)
                 \<and> (\<forall>p. loadPromise h = Some p \<longrightarrow> p < length (promises h))
        | [(p, st)] \<Rightarrow>
            loadPromise h = Some p \<and> Suc p = length (promises h) \<and> promises h ! p = Pending
            \<and> \<not> isReady h \<and> ffmpegInstance h \<noteq> None
            \<and> (\<forall>q < p. promises h ! q \<noteq> Pending)
        | _ \<Rightarrow> False)"

section \<open>The page's invariants\<close>

text \<open>
  Queue items have distinct identifiers, all drawn already; at most one pass is suspended,
  and \<open>processingRef\<close> is set exactly while one is.
\<close>

definition pageInv :: "page \<Rightarrow> bool" where
  "pageInv pg \<longleftrightarrow>
     distinct (map id' (queue pg))
     \<and> list_all (\<lambda>i. i < nextUUID pg) (map id' (queue pg))
     \<and> distinct (map id' (rendered pg))
     \<and> list_all (\<lambda>i. i < nextUUID pg) (map id' (rendered pg))
     \<and> length (passes pg) \<le> 1
     \<and> processingRef pg = (passes pg \<noteq> [])"

text \<open>A timer tick that completes the conversion the one pass awaits.\<close>

definition completing :: "page_action \<Rightarrow> bool" where
  "completing a = (case a of Tick k r \<Rightarrow> k = 0 \<and> 1 \<le> r | _ \<Rightarrow> False)"

definition completions :: "page_action list \<Rightarrow> nat" where
  "completions bs = length (filter completing bs)"

text \<open>
  A pass with snapshot \<open>S\<close>, started when \<open>base\<close> had been simulated, after \<open>c\<close>
  conversions have completed: it awaits item \<open>c\<close> of \<open>S\<close>, has started the items up to it
  in order and nothing else, and the items before it that are still in the queue are
  completed.
\<close>

definition passMid :: "QueueItem list \<Rightarrow> QueueItem list \<Rightarrow> nat \<Rightarrow> page \<Rightarrow> bool" where
  "passMid S base c pg \<longleftrightarrow>
     c < length S
     \<and> processingRef pg
     \<and> passes pg = [\<lparr>queuedItems = S, awaiting = S ! c, remaining = drop (Suc c) S\<rparr>]
     \<and> simulated pg = base @ take (Suc c) S
     \<and> (\<forall>q\<in>set (queue pg). id' q \<in> set (map id' (take c S)) \<longrightarrow> status q = Completed)
     \<and> distinct (map id' S)
     \<and> list_all (\<lambda>i. i < nextUUID pg) (map id' S)"

text \<open>
  The jobs outside the snapshot \<open>S\<close> are as they were in \<open>Q\<close> or as they were added.
\<close>

definition untouched :: "QueueItem list \<Rightarrow> QueueItem list \<Rightarrow> page \<Rightarrow> bool" where
  "untouched Q S pg \<longleftrightarrow>
     (\<forall>q\<in>set (queue pg). id' q \<notin> set (map id' S) \<longrightarrow>
        q \<in> set Q \<or> (status q = Queued \<and> item_progress q = 0))"

section \<open>Example pages\<close>

definition secondFile :: File where
  "secondFile = \<lparr>name = js ''talk.mov'', content = [3]\<rparr>"

text \<open>Two files added and drawn.\<close>

definition twoQueued :: "page_action list" where
  "twoQueued = [AddFiles [demoFile, secondFile], Render]"

text \<open>
  A pass over one file whose first timer tick comes late and completes the conversion;
  the page has not been rendered since.
\<close>

definition staleDonePage :: page where
  "staleDonePage =
     pageRun [AddFiles [demoFile], Render, StartProcessing, Render, Tick 0 1] emptyPage"

text \<open>
  A pass over two files: the first has started converting since the last render.
\<close>

definition staleConvertingPage :: page where
  "staleConvertingPage =
     pageRun [AddFiles [demoFile, secondFile], Render, StartProcessing, Render, Tick 0 (1 / 2)]
       emptyPage"

text \<open>That page, drawn again.\<close>

definition convertingPage :: page where
  "convertingPage = render staleConvertingPage"

text \<open>
  A pass over two files: the first has completed, and the page has been drawn since.
\<close>

definition oneDonePage :: page where
  "oneDonePage =
     pageRun [AddFiles [demoFile, secondFile], Render, StartProcessing, Render, Tick 0 1, Render]
       emptyPage"

text \<open>A pass over two files has been started and the page drawn; no timer has fired yet.\<close>

definition justStartedPage :: page where
  "justStartedPage =
     pageRun [AddFiles [demoFile, secondFile], Render, StartProcessing, Render] emptyPage"

text \<open>The second job has completed too, since the page was drawn.\<close>

definition staleTwoDonePage :: page where
  "staleTwoDonePage = pageRun [Tick 0 1] oneDonePage"

section \<open>getExtension and the workspace names\<close>

lemma matchesHere_last: "matchesHere (c # cs) \<Longrightarrow> last (c # cs) \<noteq> dot"
  by (cases cs rule: rev_cases) auto

lemma finalDotSuffix_here:
  assumes "matchesHere (c # cs)"
  shows "finalDotSuffix (c # cs) = Some (c # cs)"
proof -
  from assms have c: "c = dot" and nodot: "dot \<notin> set cs"
    by simp_all
  have "takeWhile (\<lambda>x. x \<noteq> dot) (rev cs @ [c]) = rev cs"
    using c nodot by (subst takeWhile_append2) auto
  moreover have "last (c # cs) \<noteq> dot"
    using assms by (rule matchesHere_last)
  ultimately show ?thesis
    using c by (simp add: finalDotSuffix_def)
qed

lemma finalDotSuffix_skip:
  assumes "\<not> matchesHere (c # cs)"
  shows "finalDotSuffix (c # cs) = finalDotSuffix cs"
proof (cases "dot \<in> set cs")
  case True
  then have "cs \<noteq> []" by auto
  moreover have "takeWhile (\<lambda>x. x \<noteq> dot) (rev cs @ [c])
      = takeWhile (\<lambda>x. x \<noteq> dot) (rev cs)"
    using True by (simp add: takeWhile_append1)
  ultimately show ?thesis
    using True by (simp add: finalDotSuffix_def)
next
  case False
  show ?thesis
  proof (cases "c = dot")
    case True
    with assms False have "cs = []" by simp
    with True show ?thesis by (simp add: finalDotSuffix_def)
  next
    case notdot: False
    with False show ?thesis by (simp add: finalDotSuffix_def)
  qed
qed

lemma match_finalDotSuffix: "match filename = finalDotSuffix filename"
proof (induction filename)
  case Nil
  show ?case by (simp add: finalDotSuffix_def)
next
  case (Cons c cs)
  then show ?case
    by (simp add: finalDotSuffix_here finalDotSuffix_skip del: matchesHere.simps)
qed

section \<open>The runs of convert\<close>

lemma during_eq:
  "during es h = h\<lparr>abortRef := abortRef h \<or> Cancel \<in> set es,
                    trace := trace h @ emitted (abortRef h) (listeners h) es\<rparr>"
proof (induction es h rule: during.induct)
  case (1 h)
  show ?case by simp
next
  case (2 p t es h)
  then show ?case by (simp add: progressEvent_def)
next
  case (3 es h)
  then show ?case by (simp add: cancel_def)
qed

lemma emitted_append:
  "emitted a ls (es1 @ es2) = emitted a ls es1 @ emitted (a \<or> Cancel \<in> set es1) ls es2"
  by (induction a ls es1 rule: emitted.induct) auto

lemma emitted_True_no_delivery: "Delivered cb v \<notin> set (emitted True ls es)"
proof (induction es)
  case Nil
  show ?case by simp
next
  case (Cons e es)
  then show ?case by (cases e) auto
qed

lemma emitted_no_call: "Called c \<notin> set (emitted a ls es)"
  by (induction a ls es rule: emitted.induct) auto

text \<open>The six ways a run of \<open>convert\<close> on a ready hook can go, each with what it logs.\<close>

lemma convert_cases:
  assumes ready: "ffmpegInstance h \<noteq> None" "isReady h"
  assumes run: "convert e sc file m cb h = (res, h')"
  defines "ls \<equiv> listeners h @ [cb]"
  defines "inp \<equiv> js ''input'' @ getExtension e (name file)"
  defines "e1 \<equiv> fst (fetchFile_await sc)"
  defines "e2 \<equiv> fst (writeFile_await sc)"
  defines "e3 \<equiv> fst (exec_await sc)"
  defines "e4 \<equiv> fst (readFile_await sc)"
  defines "d1 \<equiv> deleteEvents (deleteFile_awaits sc)"
  defines "d2 \<equiv> deleteEvents (tl (deleteFile_awaits sc))"
  defines "t1 \<equiv> [Called (OnProgress cb), Called (FetchFile (name file))] @ emitted False ls e1"
  obtains
    (fetch_fails) err where
      "snd (fetchFile_await sc) = Inl err" "res = None" "trace h' = trace h @ t1"
  | (write_fails) err data where
      "snd (fetchFile_await sc) = Inr data" "snd (writeFile_await sc) = Inl err" "res = None"
      "trace h' = trace h @ t1 @ [Called (WriteFile inp data)] @ emitted (Cancel \<in> set e1) ls e2"
  | (exec_fails) err data where
      "snd (fetchFile_await sc) = Inr data" "snd (writeFile_await sc) = Inr ()"
      "snd (exec_await sc) = Inl err" "res = None"
      "trace h' = trace h @ t1 @ [Called (WriteFile inp data)] @ emitted (Cancel \<in> set e1) ls e2
         @ [Called (Exec (args m inp (js ''output.mp4'')))] @ emitted (Cancel \<in> set (e1 @ e2)) ls e3"
  | (cancelled) data code where
      "snd (fetchFile_await sc) = Inr data" "snd (writeFile_await sc) = Inr ()"
      "snd (exec_await sc) = Inr code" "Cancel \<in> set (e1 @ e2 @ e3)" "res = None"
      "trace h' = trace h @ t1 @ [Called (WriteFile inp data)] @ emitted (Cancel \<in> set e1) ls e2
         @ [Called (Exec (args m inp (js ''output.mp4'')))] @ emitted (Cancel \<in> set (e1 @ e2)) ls e3
         @ [Called (DeleteFile inp)] @ emitted True ls d1
         @ [Called (DeleteFile (js ''output.mp4''))] @ emitted True ls d2"
  | (read_fails) err data code where
      "snd (fetchFile_await sc) = Inr data" "snd (writeFile_await sc) = Inr ()"
      "snd (exec_await sc) = Inr code" "Cancel \<notin> set (e1 @ e2 @ e3)"
      "snd (readFile_await sc) = Inl err" "res = None"
      "trace h' = trace h @ t1 @ [Called (WriteFile inp data)] @ emitted False ls e2
         @ [Called (Exec (args m inp (js ''output.mp4'')))] @ emitted False ls e3
         @ [Called (ReadFile (js ''output.mp4''))] @ emitted False ls e4"
  | (success) data code out where
      "snd (fetchFile_await sc) = Inr data" "snd (writeFile_await sc) = Inr ()"
      "snd (exec_await sc) = Inr code" "Cancel \<notin> set (e1 @ e2 @ e3)"
      "snd (readFile_await sc) = Inr out" "res = Some (Blob out ''video/mp4'')"
      "trace h' = trace h @ t1 @ [Called (WriteFile inp data)] @ emitted False ls e2
         @ [Called (Exec (args m inp (js ''output.mp4'')))] @ emitted False ls e3
         @ [Called (ReadFile (js ''output.mp4''))] @ emitted False ls e4
         @ [Called (DeleteFile inp)] @ emitted (Cancel \<in> set e4) ls d1
         @ [Called (DeleteFile (js ''output.mp4''))] @ emitted (Cancel \<in> set (e4 @ d1)) ls d2
         @ [Delivered cb \<lparr>progress = 100, time = None\<rparr>]"
  using ready run unfolding ls_def inp_def e1_def e2_def e3_def e4_def d1_def d2_def t1_def
  by (auto simp: convert_def convertBody_def Let_def during_eq called_def deleteEvents_def
      split: sum.splits if_splits prod.splits)

text \<open>
  C10. For every filename (any sequence of code units) \<open>getExtension\<close> returns the
  platform's \<open>toLowerCase\<close> of the final dot-suffix of the filename, or \<open>.mp4\<close> when the
  filename has none. Whatever the mode, every call a run of \<open>convert\<close>
  makes on the engine names the workspace entries \<open>input\<close> followed by that extension and
  \<open>output.mp4\<close>, and nothing else: the entry written and first deleted is the former, the
  last argument of the command, the entry read and the entry deleted second are the
  latter.
\<close>

theorem workspace_names:
  assumes "ffmpegInstance h \<noteq> None" and "isReady h"
    and "convert e sc file m cb h = (res, h')"
  shows "getExtension e (name file)
           = (case finalDotSuffix (name file) of Some s \<Rightarrow> toLowerCase e s | None \<Rightarrow> js ''.mp4'')
         \<and> (\<exists>tr. trace h' = trace h @ tr
               \<and> (\<forall>c. Called c \<in> set tr \<longrightarrow>
                     c \<in> {OnProgress cb, FetchFile (name file),
                          Exec (args m (js ''input'' @ getExtension e (name file)) (js ''output.mp4'')),
                          ReadFile (js ''output.mp4''),
                          DeleteFile (js ''input'' @ getExtension e (name file)),
                          DeleteFile (js ''output.mp4'')}
                         \<union> range (WriteFile (js ''input'' @ getExtension e (name file)))))
         \<and> args m (js ''input'' @ getExtension e (name file)) (js ''output.mp4'') ! 1
               = js ''input'' @ getExtension e (name file)
         \<and> last (args m (js ''input'' @ getExtension e (name file)) (js ''output.mp4'')) = (js ''output.mp4'')"
proof -
  have ext: "getExtension e (name file)
      = (case finalDotSuffix (name file) of Some s \<Rightarrow> toLowerCase e s | None \<Rightarrow> js ''.mp4'')"
    by (simp add: getExtension_def match_finalDotSuffix)
  have names: "args m i out ! 1 = i \<and> last (args m i out) = out" for i out
    by (cases m) (simp_all add: args_def)
  from assms have "\<exists>tr. trace h' = trace h @ tr
      \<and> (\<forall>c. Called c \<in> set tr \<longrightarrow>
            c \<in> {OnProgress cb, FetchFile (name file),
                 Exec (args m (js ''input'' @ getExtension e (name file)) (js ''output.mp4'')),
                 ReadFile (js ''output.mp4''),
                 DeleteFile (js ''input'' @ getExtension e (name file)),
                 DeleteFile (js ''output.mp4'')}
                \<union> range (WriteFile (js ''input'' @ getExtension e (name file))))"
    by (cases rule: convert_cases) (auto simp: emitted_no_call)
  with ext names show ?thesis by blast
qed

lemma unit_of_char: "unat (of_nat (of_char c) :: 16 word) = of_char c"
proof -
  have "(of_char c :: nat) < 65536"
    using nat_of_char_less_256 [of c] by linarith
  then show ?thesis
    by (simp add: unat_of_nat)
qed

lemma js_eq_iff [simp]: "js a = js b \<longleftrightarrow> a = b"
proof -
  have "inj (\<lambda>c :: char. (of_nat (of_char c) :: 16 word))"
  proof (rule injI)
    fix x y :: char
    assume "(of_nat (of_char x) :: 16 word) = of_nat (of_char y)"
    then have "unat (of_nat (of_char x) :: 16 word) = unat (of_nat (of_char y) :: 16 word)"
      by simp
    then have "(of_char x :: nat) = of_char y"
      by (simp only: unit_of_char)
    then show "x = y" by simp
  qed
  then show ?thesis
    unfolding js_def by (simp add: inj_map_eq_map)
qed

lemma js_append: "js a @ js b = js (a @ b)"
  by (simp add: js_def)

lemma demo_extension: "getExtension browserEnv (js ''clip.MKV'') = js ''.mkv''"
  by (simp add: getExtension_def js_def dot_def browserEnv_def asciiLower_def)

lemmas run_defs = convert_def convertBody_def Let_def during_eq called_def deleteEvents_def
  readyHook_def initial_def demoFile_def demo_extension js_append

theorem workspace_names_witness:
  "ffmpegInstance readyHook \<noteq> None \<and> isReady readyHook
   \<and> getExtension browserEnv (name demoFile) = js ''.mkv''
   \<and> Called (WriteFile (js ''input.mkv'') [1, 2])
        \<in> set (trace (snd (convert browserEnv demoScript demoFile Reencode 7 readyHook)))
   \<and> last (args Reencode (js ''input'' @ getExtension browserEnv (name demoFile))
        (js ''output.mp4'')) = js ''output.mp4''"
proof -
  have r: "ffmpegInstance readyHook \<noteq> None" "isReady readyHook"
    by (simp_all add: readyHook_def initial_def)
  have ext: "getExtension browserEnv (name demoFile) = js ''.mkv''"
    by (simp add: demoFile_def demo_extension)
  have w: "Called (WriteFile (js ''input.mkv'') [1, 2])
      \<in> set (trace (snd (convert browserEnv demoScript demoFile Reencode 7 readyHook)))"
    by (simp add: run_defs demoScript_def)
  have c: "convert browserEnv demoScript demoFile Reencode 7 readyHook
      = (fst (convert browserEnv demoScript demoFile Reencode 7 readyHook),
         snd (convert browserEnv demoScript demoFile Reencode 7 readyHook))"
    by simp
  from workspace_names [OF r c]
  have "last (args Reencode (js ''input'' @ getExtension browserEnv (name demoFile))
      (js ''output.mp4'')) = js ''output.mp4''"
    by blast
  show ?thesis
    by (intro conjI r ext w) fact
qed



section \<open>What a run delivers\<close>

lemma deliveredTo_append [simp]:
  "deliveredTo cb (xs @ ys) = deliveredTo cb xs @ deliveredTo cb ys"
  by (simp add: deliveredTo_def)

lemma deliveredTo_Nil [simp]: "deliveredTo cb [] = []"
  by (simp add: deliveredTo_def)

lemma deliveredTo_Called [simp]: "deliveredTo cb (Called c # tr) = deliveredTo cb tr"
  by (simp add: deliveredTo_def)

lemma deliveredTo_Cancel [simp]: "deliveredTo cb (CancelRequested # tr) = deliveredTo cb tr"
  by (simp add: deliveredTo_def)

lemma deliveredTo_Delivered [simp]:
  "deliveredTo cb (Delivered cb' v # tr)
     = (if cb' = cb then v # deliveredTo cb tr else deliveredTo cb tr)"
  by (simp add: deliveredTo_def)

lemma deliveredTo_broadcast:
  "deliveredTo cb (map (\<lambda>c. Delivered c v) ls) = replicate (count_list ls cb) v"
  by (induction ls) auto

lemma heard_Nil [simp]: "heard [] = []"
  by (simp add: heard_def)

lemma heard_Progress [simp]: "heard (Progress p t # es) = (p, t) # heard es"
  by (simp add: heard_def)

lemma heard_Cancel [simp]: "heard (Cancel # es) = []"
  by (simp add: heard_def)

text \<open>
  The listeners deliver, to each registration of a callback, every progress event that
  arrives before the first \<open>cancel()\<close>, scaled and capped, and nothing else.
\<close>

lemma emitted_heard:
  "deliveredTo cb (emitted a ls es)
     = (if a then []
        else concat (map (\<lambda>(p, t). replicate (count_list ls cb)
                                     \<lparr>progress = min (p * 100) 99, time = Some t\<rparr>)
                      (heard es)))"
proof (induction a ls es rule: emitted.induct)
  case (1 a ls)
  show ?case by simp
next
  case (2 a ls p t es)
  then show ?case by (simp add: deliveredTo_broadcast)
next
  case (3 a ls es)
  then show ?case by simp
qed

lemma clamped_sorted:
  "sorted (map fst hs)
     \<Longrightarrow> sorted (map progress
           (concat (map (\<lambda>(p, t). replicate n \<lparr>progress = min (p * 100) 99, time = Some t\<rparr>)
                      hs)))"
proof (induction hs)
  case Nil
  show ?case by simp
next
  case (Cons x hs)
  obtain p t where x: "x = (p, t)" by (cases x)
  from Cons.prems x have le: "\<forall>y\<in>set hs. p \<le> fst y" and rest: "sorted (map fst hs)"
    by simp_all
  have "min (p * 100) 99 \<le> progress w"
    if "w \<in> set (concat (map (\<lambda>(p, t). replicate n \<lparr>progress = min (p * 100) 99, time = Some t\<rparr>)
        hs))" for w
  proof -
    from that obtain q u where "(q, u) \<in> set hs" and "progress w = min (q * 100) 99"
      by auto
    with le show ?thesis by (fastforce simp: min_def)
  qed
  with Cons.IH [OF rest] x show ?case
    by (auto simp: sorted_append)
qed

lemma clamped_bound:
  "w \<in> set (concat (map (\<lambda>(p, t). replicate n \<lparr>progress = min (p * 100) 99, time = Some t\<rparr>) hs))
     \<Longrightarrow> progress w \<le> 99"
  by auto

text \<open>
  The log of a run, read for its own callback: what the listeners delivered for the
  events the run lived through, then 100 when it returns a blob, which it does exactly
  when every await resolves and no \<open>cancel()\<close> comes before the command has returned.
\<close>

lemma convert_delivered:
  assumes ready: "ffmpegInstance h \<noteq> None" "isReady h"
  assumes run: "convert e sc file m cb h = (res, h')"
  shows "\<exists>tr. trace h' = trace h @ tr
    \<and> deliveredTo cb tr
        = deliveredTo cb (emitted False (listeners h @ [cb]) (lived sc))
          @ (if succeeds sc then [\<lparr>progress = 100, time = None\<rparr>] else [])
    \<and> (res \<noteq> None \<longleftrightarrow> succeeds sc)
    \<and> (succeeds sc \<longrightarrow> Called (ReadFile (js ''output.mp4'')) \<in> set tr
          \<and> last tr = Delivered cb \<lparr>progress = 100, time = None\<rparr>)"
proof -
  let ?tr = "drop (length (trace h)) (trace h')"
  have "trace h' = trace h @ ?tr
    \<and> deliveredTo cb ?tr
        = deliveredTo cb (emitted False (listeners h @ [cb]) (lived sc))
          @ (if succeeds sc then [\<lparr>progress = 100, time = None\<rparr>] else [])
    \<and> (res \<noteq> None \<longleftrightarrow> succeeds sc)
    \<and> (succeeds sc \<longrightarrow> Called (ReadFile (js ''output.mp4'')) \<in> set ?tr
          \<and> last ?tr = Delivered cb \<lparr>progress = 100, time = None\<rparr>)"
    using ready run
  proof (cases rule: convert_cases)
    case (fetch_fails err)
    then show ?thesis by (simp add: lived_def succeeds_def)
  next
    case (write_fails err data)
    then show ?thesis by (simp add: lived_def succeeds_def emitted_append)
  next
    case (exec_fails err data)
    then show ?thesis by (simp add: lived_def succeeds_def emitted_append)
  next
    case (cancelled data code)
    then show ?thesis by (simp add: lived_def succeeds_def emitted_append)
  next
    case (read_fails err data code)
    then show ?thesis by (simp add: lived_def succeeds_def emitted_append)
  next
    case (success data code out)
    then show ?thesis by (simp add: lived_def succeeds_def emitted_append)
  qed
  then show ?thesis by (rule exI)
qed

text \<open>
  C2 (as amended). Take a run of \<open>convert\<close> on a loaded engine and what it logs. For every
  progress event that arrives during the run before the first \<open>cancel()\<close>, in the order
  of arrival, the callback receives \<open>min (reported * 100) 99\<close> with the event's time, once
  for each listener that calls it (one, when no earlier run was given the same
  callback); then it receives 100, if and only if the run returns a blob; and it receives
  nothing else. The run returns a blob exactly when every await up to the reading of the
  output resolves and no \<open>cancel()\<close> comes before the command has returned. The 100 is the
  last thing the run logs, after the output was read, and every value before it is at
  most 99. The values are non-decreasing whenever the fractions of those events are;
  nothing in \<open>convert\<close> makes them so.
\<close>

theorem progress_reports:
  assumes "ffmpegInstance h \<noteq> None" and "isReady h"
    and "convert e sc file m cb h = (res, h')"
  shows "\<exists>tr. trace h' = trace h @ tr
    \<and> deliveredTo cb tr
        = concat (map (\<lambda>(p, t). replicate (Suc (count_list (listeners h) cb))
                                  \<lparr>progress = min (p * 100) 99, time = Some t\<rparr>)
                    (heard (lived sc)))
          @ (if res \<noteq> None then [\<lparr>progress = 100, time = None\<rparr>] else [])
    \<and> (cb \<notin> set (listeners h) \<longrightarrow>
          deliveredTo cb tr
            = map (\<lambda>(p, t). \<lparr>progress = min (p * 100) 99, time = Some t\<rparr>) (heard (lived sc))
              @ (if res \<noteq> None then [\<lparr>progress = 100, time = None\<rparr>] else []))
    \<and> (res \<noteq> None \<longleftrightarrow> succeeds sc)
    \<and> (res = None \<longrightarrow> (\<forall>v\<in>set (deliveredTo cb tr). progress v \<le> 99))
    \<and> (res \<noteq> None \<longrightarrow>
          (\<exists>vs. deliveredTo cb tr = vs @ [\<lparr>progress = 100, time = None\<rparr>]
             \<and> (\<forall>v\<in>set vs. progress v \<le> 99))
          \<and> Called (ReadFile (js ''output.mp4'')) \<in> set tr
          \<and> last tr = Delivered cb \<lparr>progress = 100, time = None\<rparr>)
    \<and> (sorted (map fst (heard (lived sc))) \<longrightarrow> sorted (map progress (deliveredTo cb tr)))"
proof -
  let ?hundred = "\<lparr>progress = 100, time = None\<rparr> :: ConversionProgress"
  let ?listened = "concat (map (\<lambda>(p, t). replicate (Suc (count_list (listeners h) cb))
                                  \<lparr>progress = min (p * 100) 99, time = Some t\<rparr>)
                    (heard (lived sc)))"
  from convert_delivered [OF assms] obtain tr where tr: "trace h' = trace h @ tr"
    and d: "deliveredTo cb tr
        = deliveredTo cb (emitted False (listeners h @ [cb]) (lived sc))
          @ (if succeeds sc then [?hundred] else [])"
    and ok: "res \<noteq> None \<longleftrightarrow> succeeds sc"
    and fin: "succeeds sc \<longrightarrow> Called (ReadFile (js ''output.mp4'')) \<in> set tr
          \<and> last tr = Delivered cb ?hundred"
    by (elim exE conjE)
  have 1: "deliveredTo cb tr = ?listened @ (if res \<noteq> None then [?hundred] else [])"
    using ok by (simp add: d emitted_heard)
  have 2: "cb \<notin> set (listeners h) \<longrightarrow>
          deliveredTo cb tr
            = map (\<lambda>(p, t). \<lparr>progress = min (p * 100) 99, time = Some t\<rparr>) (heard (lived sc))
              @ (if res \<noteq> None then [?hundred] else [])"
  proof
    assume "cb \<notin> set (listeners h)"
    then have "count_list (listeners h) cb = 0" by simp
    moreover have "concat (map (\<lambda>(p, t). replicate (Suc 0) (f p t)) xs) = map (\<lambda>(p, t). f p t) xs"
      for f :: "real \<Rightarrow> real \<Rightarrow> ConversionProgress" and xs
      by (induction xs) auto
    ultimately show "deliveredTo cb tr
            = map (\<lambda>(p, t). \<lparr>progress = min (p * 100) 99, time = Some t\<rparr>) (heard (lived sc))
              @ (if res \<noteq> None then [?hundred] else [])"
      by (simp add: 1)
  qed
  have le: "progress v \<le> 99" if "v \<in> set ?listened" for v
    using that by (rule clamped_bound)
  have 3: "res = None \<longrightarrow> (\<forall>v\<in>set (deliveredTo cb tr). progress v \<le> 99)"
    using le by (simp add: 1)
  have 4: "res \<noteq> None \<longrightarrow>
          (\<exists>vs. deliveredTo cb tr = vs @ [?hundred] \<and> (\<forall>v\<in>set vs. progress v \<le> 99))
          \<and> Called (ReadFile (js ''output.mp4'')) \<in> set tr
          \<and> last tr = Delivered cb ?hundred"
  proof
    assume r: "res \<noteq> None"
    then have "deliveredTo cb tr = ?listened @ [?hundred]"
      by (simp add: 1)
    with le have "\<exists>vs. deliveredTo cb tr = vs @ [?hundred] \<and> (\<forall>v\<in>set vs. progress v \<le> 99)"
      by blast
    moreover from r ok fin have "Called (ReadFile (js ''output.mp4'')) \<in> set tr"
      and "last tr = Delivered cb ?hundred"
      by simp_all
    ultimately show "(\<exists>vs. deliveredTo cb tr = vs @ [?hundred] \<and> (\<forall>v\<in>set vs. progress v \<le> 99))
          \<and> Called (ReadFile (js ''output.mp4'')) \<in> set tr
          \<and> last tr = Delivered cb ?hundred"
      by (intro conjI)
  qed
  have 5: "sorted (map fst (heard (lived sc))) \<longrightarrow> sorted (map progress (deliveredTo cb tr))"
  proof
    assume "sorted (map fst (heard (lived sc)))"
    then have listened: "sorted (map progress ?listened)"
      by (rule clamped_sorted)
    have below: "\<forall>x\<in>set ?listened. progress x \<le> 100"
    proof
      fix x assume "x \<in> set ?listened"
      from le [OF this] show "progress x \<le> 100" by simp
    qed
    show "sorted (map progress (deliveredTo cb tr))"
    proof (cases "res = None")
      case True
      with listened show ?thesis by (simp add: 1)
    next
      case False
      with listened below show ?thesis by (simp add: 1 sorted_append)
    qed
  qed
  show ?thesis
    by (rule exI [of _ tr]) (intro conjI tr 1 2 ok 3 4 5)
qed

theorem progress_reports_witness:
  "ffmpegInstance readyHook \<noteq> None \<and> isReady readyHook
   \<and> sorted (map fst (heard (lived demoScript)))
   \<and> fst (convert browserEnv demoScript demoFile Fast 7 readyHook) \<noteq> None
   \<and> map progress
        (deliveredTo 7 (trace (snd (convert browserEnv demoScript demoFile Fast 7 readyHook))))
        = [25, 75, 100]
   \<and> sorted (map progress
        (deliveredTo 7 (trace (snd (convert browserEnv demoScript demoFile Fast 7 readyHook)))))"
proof -
  have r: "ffmpegInstance readyHook \<noteq> None" "isReady readyHook"
    by (simp_all add: readyHook_def initial_def)
  have s: "sorted (map fst (heard (lived demoScript)))"
    by (simp add: lived_def demoScript_def deleteEvents_def)
  have c: "convert browserEnv demoScript demoFile Fast 7 readyHook
      = (fst (convert browserEnv demoScript demoFile Fast 7 readyHook),
         snd (convert browserEnv demoScript demoFile Fast 7 readyHook))"
    by simp
  have t: "trace readyHook = []"
    by (simp add: readyHook_def initial_def)
  have ok: "fst (convert browserEnv demoScript demoFile Fast 7 readyHook) \<noteq> None"
    by (simp add: run_defs demoScript_def)
  have vs: "map progress
      (deliveredTo 7 (trace (snd (convert browserEnv demoScript demoFile Fast 7 readyHook))))
        = [25, 75, 100]"
    by (simp add: run_defs demoScript_def)
  from progress_reports [OF r c] obtain tr
    where "trace (snd (convert browserEnv demoScript demoFile Fast 7 readyHook))
        = trace readyHook @ tr"
      and "sorted (map fst (heard (lived demoScript))) \<longrightarrow> sorted (map progress (deliveredTo 7 tr))"
    by (elim exE conjE)
  with s t
  have "sorted (map progress
      (deliveredTo 7 (trace (snd (convert browserEnv demoScript demoFile Fast 7 readyHook)))))"
    by simp
  with r s ok vs show ?thesis by (intro conjI)
qed

text \<open>
  C2 as stated fails: the engine reports 0.5 and then 0.3 while the command runs, and the
  callback receives 50, 30, 100.
\<close>

theorem progress_not_monotone:
  "map progress
     (deliveredTo 7 (trace (snd (convert browserEnv nonMonotoneScript demoFile Fast 7 readyHook))))
     = [50, 30, 100]
   \<and> \<not> sorted (map progress
          (deliveredTo 7
             (trace (snd (convert browserEnv nonMonotoneScript demoFile Fast 7 readyHook)))))"
  by (simp add: run_defs nonMonotoneScript_def demoScript_def)


section \<open>Cancellation and failure\<close>

lemma afterCancel_Cons:
  "afterCancel (x # xs) = (if x = CancelRequested then xs else afterCancel xs)"
  by (simp add: afterCancel_def)

lemma afterCancel_Nil [simp]: "afterCancel [] = []"
  by (simp add: afterCancel_def)

lemma afterCancel_append:
  "afterCancel (xs @ ys)
     = (if CancelRequested \<in> set xs then afterCancel xs @ ys else afterCancel ys)"
  by (induction xs) (simp_all add: afterCancel_Cons)

lemma emitted_cancel_iff: "CancelRequested \<in> set (emitted a ls es) \<longleftrightarrow> Cancel \<in> set es"
  by (induction a ls es rule: emitted.induct) auto

lemma afterCancel_emitted: "Delivered c v \<notin> set (afterCancel (emitted a ls es))"
proof (induction a ls es rule: emitted.induct)
  case (1 a ls)
  show ?case by simp
next
  case (2 a ls p t es)
  then show ?case by (auto simp: afterCancel_append)
next
  case (3 a ls es)
  show ?case by (simp add: afterCancel_Cons emitted_True_no_delivery)
qed


text \<open>
  C3 (as amended). When \<open>cancel()\<close> is called before the engine command returns (while
  the file is fetched or written, or while the command runs) and the command returns
  normally, the run returns no blob and records no error, never reads the output, and
  deletes both workspace entries; from the cancellation until the run returns no callback
  is called (so no 100), and the flag is still set when the run returns.
\<close>

theorem cancel_before_command_returns:
  assumes "ffmpegInstance h \<noteq> None" and "isReady h"
    and "convert e sc file m cb h = (res, h')"
    and "Cancel \<in> set (fst (fetchFile_await sc) @ fst (writeFile_await sc) @ fst (exec_await sc))"
    and "snd (fetchFile_await sc) = Inr data"
    and "snd (writeFile_await sc) = Inr ()"
    and "snd (exec_await sc) = Inr code"
  shows "res = None
    \<and> (\<exists>tr. trace h' = trace h @ tr
          \<and> (\<forall>n. Called (ReadFile n) \<notin> set tr)
          \<and> (\<forall>c v. Delivered c v \<notin> set (afterCancel tr))
          \<and> Called (DeleteFile (js ''input'' @ getExtension e (name file))) \<in> set tr
          \<and> Called (DeleteFile (js ''output.mp4'')) \<in> set tr)
    \<and> abortRef h' \<and> error h' = error h"
proof -
  let ?e1 = "fst (fetchFile_await sc)" and ?e2 = "fst (writeFile_await sc)"
  let ?e3 = "fst (exec_await sc)"
  let ?ls = "listeners h @ [cb]"
  let ?inp = "js ''input'' @ getExtension e (name file)"
  let ?d1 = "deleteEvents (deleteFile_awaits sc)"
  let ?d2 = "deleteEvents (tl (deleteFile_awaits sc))"
  let ?tr = "[Called (OnProgress cb), Called (FetchFile (name file))] @ emitted False ?ls ?e1
         @ [Called (WriteFile ?inp data)] @ emitted (Cancel \<in> set ?e1) ?ls ?e2
         @ [Called (Exec (args m ?inp (js ''output.mp4'')))] @ emitted (Cancel \<in> set (?e1 @ ?e2)) ?ls ?e3
         @ [Called (DeleteFile ?inp)] @ emitted True ?ls ?d1
         @ [Called (DeleteFile (js ''output.mp4''))] @ emitted True ?ls ?d2"
  from assms(1-3) have res: "res = None" and tr: "trace h' = trace h @ ?tr"
    using assms(4-7) by (cases rule: convert_cases; simp)+
  have noread: "\<forall>n. Called (ReadFile n) \<notin> set ?tr"
    by (simp add: emitted_no_call)
  have quiet: "\<forall>c v. Delivered c v \<notin> set (afterCancel ?tr)"
    using assms(4)
    by (auto simp: afterCancel_append afterCancel_Cons emitted_cancel_iff
        afterCancel_emitted emitted_True_no_delivery)
  have del: "Called (DeleteFile ?inp) \<in> set ?tr" "Called (DeleteFile (js ''output.mp4'')) \<in> set ?tr"
    by simp_all
  from assms have flag: "abortRef h'" and err: "error h' = error h"
    by (auto simp: convert_def convertBody_def Let_def during_eq called_def
        split: if_splits)
  show ?thesis
    by (intro conjI res exI [of _ ?tr] tr noread quiet del flag err)
qed


theorem cancel_before_command_returns_witness:
  "ffmpegInstance readyHook \<noteq> None \<and> isReady readyHook
   \<and> Cancel \<in> set (fst (fetchFile_await earlyCancelScript)
         @ fst (writeFile_await earlyCancelScript) @ fst (exec_await earlyCancelScript))
   \<and> snd (fetchFile_await earlyCancelScript) = Inr [1, 2]
   \<and> snd (writeFile_await earlyCancelScript) = Inr ()
   \<and> snd (exec_await earlyCancelScript) = Inr 0
   \<and> fst (convert browserEnv earlyCancelScript demoFile Fast 7 readyHook) = None
   \<and> map progress (deliveredTo 7 (trace (snd (convert browserEnv earlyCancelScript demoFile Fast 7 readyHook))))
        = [25]"
proof -
  have r: "ffmpegInstance readyHook \<noteq> None" "isReady readyHook"
    by (simp_all add: readyHook_def initial_def)
  have c: "convert browserEnv earlyCancelScript demoFile Fast 7 readyHook
      = (fst (convert browserEnv earlyCancelScript demoFile Fast 7 readyHook),
         snd (convert browserEnv earlyCancelScript demoFile Fast 7 readyHook))"
    by simp
  have k: "Cancel \<in> set (fst (fetchFile_await earlyCancelScript)
         @ fst (writeFile_await earlyCancelScript) @ fst (exec_await earlyCancelScript))"
    by (simp add: earlyCancelScript_def demoScript_def)
  have f: "snd (fetchFile_await earlyCancelScript) = Inr [1, 2]"
    and w: "snd (writeFile_await earlyCancelScript) = Inr ()"
    and x: "snd (exec_await earlyCancelScript) = Inr 0"
    by (simp_all add: earlyCancelScript_def demoScript_def)
  from cancel_before_command_returns [OF r c k f w x]
  have n: "fst (convert browserEnv earlyCancelScript demoFile Fast 7 readyHook) = None"
    by (rule conjunct1)
  have vs: "map progress
      (deliveredTo 7 (trace (snd (convert browserEnv earlyCancelScript demoFile Fast 7 readyHook)))) = [25]"
    by (simp add: run_defs earlyCancelScript_def demoScript_def)
  show ?thesis
    by (intro conjI r k f w x n vs)
qed

text \<open>
  C3 as stated fails: a \<open>cancel()\<close> that arrives after the flag was checked, while the
  output is being read, is not honoured. The run returns the blob and delivers 100 after
  the cancellation.
\<close>

theorem late_cancel_completes:
  "fst (convert browserEnv lateCancelScript demoFile Fast 7 readyHook) = Some (Blob [9] ''video/mp4'')
   \<and> CancelRequested \<in> set (trace (snd (convert browserEnv lateCancelScript demoFile Fast 7 readyHook)))
   \<and> Delivered 7 \<lparr>progress = 100, time = None\<rparr>
        \<in> set (afterCancel (trace (snd (convert browserEnv lateCancelScript demoFile Fast 7 readyHook))))"
  by (simp add: run_defs lateCancelScript_def demoScript_def afterCancel_def)

text \<open>
  When the engine command rejects, the \<open>catch\<close> block is all that runs: the input entry
  was written and no \<open>deleteFile\<close> is called.
\<close>

lemma rejected_run_skips_cleanup:
  assumes "ffmpegInstance h \<noteq> None" and "isReady h"
    and "convert e sc file m cb h = (res, h')"
    and "snd (fetchFile_await sc) = Inr data"
    and "snd (writeFile_await sc) = Inr ()"
    and "snd (exec_await sc) = Inl err"
  shows "res = None
    \<and> (\<exists>tr. trace h' = trace h @ tr
          \<and> Called (WriteFile (js ''input'' @ getExtension e (name file)) data) \<in> set tr
          \<and> (\<forall>n. Called (DeleteFile n) \<notin> set tr))"
proof -
  let ?e1 = "fst (fetchFile_await sc)" and ?e2 = "fst (writeFile_await sc)"
  let ?e3 = "fst (exec_await sc)"
  let ?ls = "listeners h @ [cb]"
  let ?inp = "js ''input'' @ getExtension e (name file)"
  let ?tr = "[Called (OnProgress cb), Called (FetchFile (name file))] @ emitted False ?ls ?e1
         @ [Called (WriteFile ?inp data)] @ emitted (Cancel \<in> set ?e1) ?ls ?e2
         @ [Called (Exec (args m ?inp (js ''output.mp4'')))] @ emitted (Cancel \<in> set (?e1 @ ?e2)) ?ls ?e3"
  from assms(1-3) have res: "res = None" and tr: "trace h' = trace h @ ?tr"
    using assms(4-6) by (cases rule: convert_cases; simp)+
  have w: "Called (WriteFile ?inp data) \<in> set ?tr"
    by simp
  have nodel: "\<forall>n. Called (DeleteFile n) \<notin> set ?tr"
    by (simp add: emitted_no_call)
  show ?thesis
    by (intro conjI res exI [of _ ?tr] tr w nodel)
qed

text \<open>
  C4 fails on the code: a run whose engine command rejects with "boom" returns null with
  that message, and its log ends with the command. \<open>input.mkv\<close> was written and is
  never deleted.
\<close>

theorem failed_run_leaves_workspace:
  "fst (convert browserEnv execFailScript demoFile Fast 7 readyHook) = None
   \<and> error (snd (convert browserEnv execFailScript demoFile Fast 7 readyHook)) = Some ''boom''
   \<and> trace (snd (convert browserEnv execFailScript demoFile Fast 7 readyHook))
       = [Called (OnProgress 7), Called (FetchFile (js ''clip.MKV'')),
          Called (WriteFile (js ''input.mkv'') [1, 2]),
          Called (Exec [js ''-i'', js ''input.mkv'', js ''-c'', js ''copy'', js ''-movflags'',
                        js ''+faststart'', js ''output.mp4''])]"
  by (simp add: run_defs execFailScript_def demoScript_def args_def)


section \<open>Listeners outlive their run\<close>

text \<open>
  \<open>convert\<close> registers its listener and never removes it: a second run on the same engine
  also reaches the callback of the first, after that callback received its 100. What is
  proved above about the values a run delivers is about the entries the run itself logs.
\<close>

lemma stale_listener:
  "map progress
     (deliveredTo 7 (trace (snd (convert browserEnv demoScript secondFile Fast 8
        (snd (convert browserEnv demoScript demoFile Fast 7 readyHook))))))
   = [25, 75, 100, 25, 75]"
  by (simp add: run_defs demoScript_def secondFile_def getExtension_def js_def dot_def
      browserEnv_def asciiLower_def)


text \<open>
  The same happens to a run that was cancelled: the next run clears the flag, and the
  listener of the cancelled run passes the events of the next run to its callback.
\<close>

lemma cancelled_run_hears_next_run:
  "map progress
     (deliveredTo 7 (trace (snd (convert browserEnv earlyCancelScript demoFile Fast 7 readyHook))))
   = [25]
   \<and> map progress
     (deliveredTo 7 (trace (snd (convert browserEnv demoScript secondFile Fast 8
        (snd (convert browserEnv earlyCancelScript demoFile Fast 7 readyHook))))))
   = [25, 25, 75]"
  by (simp add: run_defs demoScript_def earlyCancelScript_def secondFile_def getExtension_def
      js_def dot_def browserEnv_def asciiLower_def)


section \<open>The loader\<close>

lemma wake_only_state:
  "\<exists>s. foldl (\<lambda>h' p. case promiseState h0 p of
                        Fulfilled b \<Rightarrow> h'\<lparr>state := (if b then Ready else Error)\<rparr>
                      | Pending \<Rightarrow> h') h ws = h\<lparr>state := s\<rparr>"
proof (induction ws arbitrary: h)
  case Nil
  have "h = h\<lparr>state := state h\<rparr>" by simp
  then show ?case by (metis foldl_Nil)
next
  case (Cons w ws)
  show ?case
  proof (cases "promiseState h0 w")
    case Pending
    with Cons show ?thesis by simp
  next
    case (Fulfilled b)
    from Cons [of "h\<lparr>state := (if b then Ready else Error)\<rparr>"] Fulfilled
    show ?thesis by auto
  qed
qed

lemma microtasks_eq:
  "\<exists>s. microtasks h = h\<lparr>state := s, waiters := filter (\<lambda>p. promiseState h p = Pending) (waiters h)\<rparr>"
proof -
  from wake_only_state [of h h "waiters h"] obtain s where
    "foldl (\<lambda>h' p. case promiseState h p of
                        Fulfilled b \<Rightarrow> h'\<lparr>state := (if b then Ready else Error)\<rparr>
                      | Pending \<Rightarrow> h') h (waiters h) = h\<lparr>state := s\<rparr>" by blast
  then show ?thesis by (auto simp: microtasks_def)
qed

lemma microtasks_fields [simp]:
  "loadPromise (microtasks h) = loadPromise h"
  "ffmpegInstance (microtasks h) = ffmpegInstance h"
  "isReady (microtasks h) = isReady h"
  "promises (microtasks h) = promises h"
  "inflight (microtasks h) = inflight h"
  "trace (microtasks h) = trace h"
  "error (microtasks h) = error h"
  "debugInfo (microtasks h) = debugInfo h"
  using microtasks_eq [of h] by auto

lemma loaderInv_microtasks [simp]: "loaderInv (microtasks h) = loaderInv h"
  by (simp add: loaderInv_def split: list.splits prod.splits)

lemma loaderInv_initial: "loaderInv initial"
  by (simp add: loaderInv_def initial_def)

lemma loaderInv_ensureLoaded:
  assumes "loaderInv h"
  shows "loaderInv (snd (ensureLoaded e h))"
  using assms
  by (auto simp: loaderInv_def ensureLoaded_def doLoad_def called_def Let_def nth_append
      split: option.splits list.splits prod.splits if_splits)


lemma loaderInv_settle:
  assumes "loaderInv h"
  shows "loaderInv (step e (Settle k r) h)"
proof (cases "k < length (inflight h)")
  case False
  with assms show ?thesis by (simp add: step_def)
next
  case True
  with assms obtain p st where one: "inflight h = [(p, st)]" and k: "k = 0"
    by (auto simp: loaderInv_def split: list.splits)
  from assms one have facts: "loadPromise h = Some p" "Suc p = length (promises h)"
    "promises h ! p = Pending" "\<not> isReady h" "ffmpegInstance h \<noteq> None"
    "\<forall>q < p. promises h ! q \<noteq> Pending"
    by (simp_all add: loaderInv_def)
  have "loaderInv (doLoadResume e p st r (h\<lparr>inflight := []\<rparr>))"
  proof (cases r)
    case (Some err)
    with facts show ?thesis
      by (auto simp: loaderInv_def doLoadResume_def doLoadCatch_def fulfil_def Let_def
          nth_list_update less_Suc_eq)
  next
    case None
    with facts show ?thesis
      by (cases st)
        (auto simp: loaderInv_def doLoadResume_def fulfil_def called_def
          nth_list_update less_Suc_eq)
  qed
  with one k show ?thesis by (simp add: step_def)
qed

lemma loaderInv_step: "loaderInv h \<Longrightarrow> loaderInv (step e a h)"
proof (cases a)
  case EnsureLoaded
  assume "loaderInv h"
  then have "loaderInv (snd (ensureLoaded e h))" by (rule loaderInv_ensureLoaded)
  with EnsureLoaded show ?thesis by (simp add: step_def)
next
  case (Settle k r)
  assume "loaderInv h"
  then show ?thesis unfolding Settle by (rule loaderInv_settle)
qed

lemma loaderInv_run: "loaderInv h \<Longrightarrow> loaderInv (run e as h)"
  by (induction as arbitrary: h) (simp_all add: loaderInv_step)

lemma promises_microtasks [simp]: "promiseState (microtasks h) q = promiseState h q"
  by (simp add: promiseState_def)

text \<open>A promise that has settled keeps its value.\<close>

lemma settled_step:
  assumes "loaderInv h" and "promiseState h q = Fulfilled b"
  shows "promiseState (step e a h) q = Fulfilled b"
proof (cases a)
  case EnsureLoaded
  from assms(2) have "q < length (promises h)" "promises h ! q = Fulfilled b"
    by (auto simp: promiseState_def split: if_splits)
  then have "promiseState (snd (ensureLoaded e h)) q = Fulfilled b"
    by (auto simp: promiseState_def ensureLoaded_def doLoad_def called_def Let_def nth_append
        split: option.splits)
  with EnsureLoaded show ?thesis by (simp add: step_def)
next
  case (Settle k r)
  show ?thesis
  proof (cases "k < length (inflight h)")
    case False
    with assms Settle show ?thesis by (simp add: step_def)
  next
    case True
    with assms obtain p st where one: "inflight h = [(p, st)]" and k: "k = 0"
      by (auto simp: loaderInv_def split: list.splits)
    from assms one have "promises h ! p = Pending"
      by (simp add: loaderInv_def)
    with assms(2) have neq: "q \<noteq> p" and q: "q < length (promises h)"
      "promises h ! q = Fulfilled b"
      by (auto simp: promiseState_def split: if_splits)
    have "promiseState (doLoadResume e p st r (h\<lparr>inflight := []\<rparr>)) q = Fulfilled b"
      using neq q
      by (cases r; cases st)
        (auto simp: promiseState_def doLoadResume_def doLoadCatch_def fulfil_def called_def
          Let_def)
    with one k Settle show ?thesis by (simp add: step_def)
  qed
qed

lemma settled_run:
  "loaderInv h \<Longrightarrow> promiseState h q = Fulfilled b \<Longrightarrow> promiseState (run e as h) q = Fulfilled b"
proof (induction as arbitrary: h)
  case Nil
  then show ?case by simp
next
  case (Cons a as)
  from Cons.prems have "loaderInv (step e a h)" "promiseState (step e a h) q = Fulfilled b"
    by (simp_all add: loaderInv_step settled_step)
  then show ?case using Cons.IH by simp
qed


lemma outcome_Later: "outcome h (Later p) = Some b \<longleftrightarrow> promiseState h p = Fulfilled b"
  by (auto simp: outcome_def split: promise.splits)

text \<open>
  C1. In every state the loader can reach, at most one \<open>doLoad\<close> is in flight. While one
  is, it is the last \<open>doLoad\<close> that was started, \<open>loadPromise\<close> is its pending promise, and
  a further \<open>ensureLoaded()\<close> is handed that same promise and starts nothing: no promise
  is created, no load is suspended, no call reaches the engine. Once that promise has
  settled, every caller holding it reads the same boolean, whatever happens later.
\<close>

theorem single_flight:
  assumes "h = run e as initial" and "inflight h \<noteq> []"
  shows "\<exists>p st. inflight h = [(p, st)]
    \<and> loadPromise h = Some p \<and> promiseState h p = Pending \<and> Suc p = length (promises h)
    \<and> fst (ensureLoaded e h) = Later p
    \<and> promises (snd (ensureLoaded e h)) = promises h
    \<and> inflight (snd (ensureLoaded e h)) = inflight h
    \<and> trace (snd (ensureLoaded e h)) = trace h
    \<and> (\<forall>bs cs b. outcome (run e bs h) (Later p) = Some b
          \<longrightarrow> outcome (run e cs (run e bs h)) (Later p) = Some b)"
proof -
  from assms(1) have inv: "loaderInv h"
    by (simp add: loaderInv_run loaderInv_initial)
  with assms(2) obtain p st where one: "inflight h = [(p, st)]"
    by (cases "inflight h") (auto simp: loaderInv_def split: list.splits)
  from inv one have facts: "loadPromise h = Some p" "Suc p = length (promises h)"
    "promises h ! p = Pending" "\<not> isReady h"
    by (simp_all add: loaderInv_def)
  then have pending: "promiseState h p = Pending"
    by (auto simp: promiseState_def)
  from facts have call: "ensureLoaded e h = (Later p, h\<lparr>state := Loading, waiters := waiters h @ [p]\<rparr>)"
    by (simp add: ensureLoaded_def)
  have stable: "\<forall>bs cs b. outcome (run e bs h) (Later p) = Some b
          \<longrightarrow> outcome (run e cs (run e bs h)) (Later p) = Some b"
  proof (intro allI impI)
    fix bs cs b
    assume "outcome (run e bs h) (Later p) = Some b"
    then have fb: "promiseState (run e bs h) p = Fulfilled b"
      by (simp add: outcome_Later)
    from inv have inv': "loaderInv (run e bs h)"
      by (rule loaderInv_run)
    from inv' fb have "promiseState (run e cs (run e bs h)) p = Fulfilled b"
      by (rule settled_run)
    then show "outcome (run e cs (run e bs h)) (Later p) = Some b"
      by (simp add: outcome_Later)
  qed
  show ?thesis
    apply (rule exI [of _ p], rule exI [of _ st])
    apply (intro conjI one facts(1) pending facts(2) stable)
    apply (simp_all add: call)
    done
qed

theorem single_flight_witness:
  "inflight (run browserEnv [EnsureLoaded] initial) \<noteq> []
   \<and> fst (ensureLoaded browserEnv (run browserEnv [EnsureLoaded] initial)) = Later 0
   \<and> length (promises (run browserEnv [EnsureLoaded, EnsureLoaded, EnsureLoaded] initial)) = 1
   \<and> outcome (run browserEnv [EnsureLoaded, EnsureLoaded, Settle 0 None, Settle 0 None,
        Settle 0 None] initial) (Later 0) = Some True"
proof -
  have i: "inflight (run browserEnv [EnsureLoaded] initial) = [(0, AwaitCoreURL)]"
    by (simp add: step_def ensureLoaded_def doLoad_def called_def Let_def browserEnv_def
        initial_def)
  then have ne: "inflight (run browserEnv [EnsureLoaded] initial) \<noteq> []"
    by simp
  from single_flight [OF refl ne] i
  have l: "fst (ensureLoaded browserEnv (run browserEnv [EnsureLoaded] initial)) = Later 0"
    by auto
  have n: "length (promises (run browserEnv [EnsureLoaded, EnsureLoaded, EnsureLoaded] initial)) = 1"
    by (simp add: step_def ensureLoaded_def doLoad_def called_def Let_def browserEnv_def
        initial_def)
  have o: "outcome (run browserEnv [EnsureLoaded, EnsureLoaded, Settle 0 None, Settle 0 None,
        Settle 0 None] initial) (Later 0) = Some True"
    by (simp add: step_def ensureLoaded_def doLoad_def doLoadResume_def fulfil_def called_def
        Let_def browserEnv_def initial_def outcome_def promiseState_def)
  show ?thesis by (intro conjI ne l n o)
qed

text \<open>
  C5 fails on the code for the missing capability: \<open>doLoad\<close> returns false on its early
  return, \<open>ensureLoaded\<close> then stores that settled promise in \<open>loadPromise\<close>, and nothing
  resets it. The next \<open>ensureLoaded()\<close> is handed the old promise (false) and starts no
  load.
\<close>

theorem sticky_capability_failure:
  "loadPromise (step noSharedMemoryEnv EnsureLoaded initial) = Some 0
   \<and> outcome (step noSharedMemoryEnv EnsureLoaded initial) (Later 0) = Some False
   \<and> fst (ensureLoaded noSharedMemoryEnv (step noSharedMemoryEnv EnsureLoaded initial)) = Later 0
   \<and> promises (snd (ensureLoaded noSharedMemoryEnv (step noSharedMemoryEnv EnsureLoaded initial)))
       = [Fulfilled False]
   \<and> trace (snd (ensureLoaded noSharedMemoryEnv (step noSharedMemoryEnv EnsureLoaded initial)))
       = []"
  by (simp add: step_def ensureLoaded_def doLoad_def Let_def noSharedMemoryEnv_def
      browserEnv_def initial_def outcome_def promiseState_def)

text \<open>After a rejection the singleton is reset and the next call starts a new load.\<close>

lemma retry_after_rejection:
  assumes "h = run e as initial" and "inflight h \<noteq> []"
  shows "loadPromise (step e (Settle 0 (Some err)) h) = None
    \<and> inflight (step e (Settle 0 (Some err)) h) = []
    \<and> fst (ensureLoaded e (step e (Settle 0 (Some err)) h)) = Later (length (promises h))
    \<and> length (promises (snd (ensureLoaded e (step e (Settle 0 (Some err)) h))))
         = Suc (length (promises h))"
proof -
  from assms(1) have inv: "loaderInv h"
    by (simp add: loaderInv_run loaderInv_initial)
  with assms(2) obtain p st where one: "inflight h = [(p, st)]"
    by (cases "inflight h") (auto simp: loaderInv_def split: list.splits)
  let ?h = "step e (Settle 0 (Some err)) h"
  from one have h': "loadPromise ?h = None" "inflight ?h = []" "\<not> isReady ?h"
    "promises ?h = (promises h)[p := Fulfilled False]"
    by (simp_all add: step_def doLoadResume_def doLoadCatch_def fulfil_def Let_def)
  then have "fst (ensureLoaded e ?h) = Later (length (promises h))"
    and "length (promises (snd (ensureLoaded e ?h))) = Suc (length (promises h))"
    by (simp_all add: ensureLoaded_def doLoad_def Let_def called_def split: prod.splits)
  with h' show ?thesis by simp
qed

text \<open>
  C6. Without \<open>SharedArrayBuffer\<close>, \<open>doLoad\<close> returns a promise already settled with false,
  records the message naming the capability as error and in the debug info, and sets the
  state to error; it calls nothing on the engine or its helpers, creates no engine object
  and suspends nowhere. An \<open>ensureLoaded()\<close> that starts such a load resolves to false.
\<close>

theorem capability_missing:
  assumes "\<not> hasSharedArrayBuffer e"
  shows "promiseState (snd (doLoad e h)) (fst (doLoad e h)) = Fulfilled False
    \<and> trace (snd (doLoad e h)) = trace h
    \<and> inflight (snd (doLoad e h)) = inflight h
    \<and> ffmpegInstance (snd (doLoad e h)) = ffmpegInstance h
    \<and> state (snd (doLoad e h)) = Error
    \<and> error (snd (doLoad e h))
        = Some ''SharedArrayBuffer not available. Please use Chrome/Edge/Firefox with HTTPS.''
    \<and> map_option debug_error (debugInfo (snd (doLoad e h))) = error (snd (doLoad e h))
    \<and> (loadPromise h = None \<and> \<not> isReady h \<longrightarrow>
         outcome (snd (ensureLoaded e h)) (fst (ensureLoaded e h)) = Some False
         \<and> trace (snd (ensureLoaded e h)) = trace h)"
  using assms
  by (simp add: doLoad_def Let_def promiseState_def createDebugInfo_def ensureLoaded_def
      outcome_def)

theorem capability_missing_witness:
  "\<not> hasSharedArrayBuffer noSharedMemoryEnv
   \<and> loadPromise initial = None \<and> \<not> isReady initial
   \<and> outcome (snd (ensureLoaded noSharedMemoryEnv initial))
        (fst (ensureLoaded noSharedMemoryEnv initial)) = Some False
   \<and> trace (snd (ensureLoaded noSharedMemoryEnv initial)) = []"
proof -
  have a: "\<not> hasSharedArrayBuffer noSharedMemoryEnv"
    by (simp add: noSharedMemoryEnv_def)
  have b: "loadPromise initial = None" "\<not> isReady initial" "trace initial = []"
    by (simp_all add: initial_def)
  from capability_missing [OF a, of initial] b
  have "outcome (snd (ensureLoaded noSharedMemoryEnv initial))
        (fst (ensureLoaded noSharedMemoryEnv initial)) = Some False
      \<and> trace (snd (ensureLoaded noSharedMemoryEnv initial)) = []"
    by simp
  with a b show ?thesis by simp
qed


section \<open>The queue page\<close>

lemma newItems_ids: "map id' (newItems u fs) = [u ..< u + length fs]"
  by (induction fs arbitrary: u) (simp_all add: upt_rec)

lemma newItems_status: "q \<in> set (newItems u fs) \<Longrightarrow> status q = Queued \<and> u \<le> id' q"
  by (induction fs arbitrary: u) (auto dest: Suc_leD)

lemma pageRun_append: "pageRun (as @ bs) pg = pageRun bs (pageRun as pg)"
  by (induction as arbitrary: pg) simp_all

lemma id_if: "id' (if c then a else b) = (if c then id' a else id' b)"
  by simp

lemma pageInv_empty: "pageInv emptyPage"
  by (simp add: pageInv_def emptyPage_def)

lemma pageInv_addFiles: "pageInv pg \<Longrightarrow> pageInv (addFiles fs pg)"
  by (fastforce simp: pageInv_def addFiles_def showToast_def newItems_ids list_all_iff)

lemma pageInv_clickRemove: "pageInv pg \<Longrightarrow> pageInv (clickRemove i pg)"
  by (auto simp: pageInv_def clickRemove_def removeItem_def list_all_iff distinct_map_filter)

lemma pageInv_clearCompleted: "pageInv pg \<Longrightarrow> pageInv (snd (clearCompleted pg))"
  by (auto simp: pageInv_def clearCompleted_def showToast_def Let_def list_all_iff
      distinct_map_filter)

lemma pageInv_startProcessing: "pageInv pg \<Longrightarrow> pageInv (startProcessing pg)"
  by (auto simp: pageInv_def startProcessing_def continuePass_def simulateConversion_def
      showToast_def Let_def list_all_iff split: list.splits)

lemma pageInv_render: "pageInv pg \<Longrightarrow> pageInv (render pg)"
  by (simp add: pageInv_def render_def)

lemma tick_ids: "map id' (queue (tick k r pg)) = map id' (queue pg)"
  by (simp add: tick_def Let_def continuePass_def simulateConversion_def showToast_def
      comp_def id_if split: list.splits)

lemma tick_rendered: "rendered (tick k r pg) = rendered pg"
  by (simp add: tick_def Let_def continuePass_def simulateConversion_def showToast_def
      split: list.splits)

lemma tick_nextUUID: "nextUUID pg \<le> nextUUID (tick k r pg)"
  by (simp add: tick_def Let_def continuePass_def simulateConversion_def showToast_def
      split: list.splits)

lemma pageInv_tick: "pageInv pg \<Longrightarrow> pageInv (tick k r pg)"
proof -
  assume inv: "pageInv pg"
  have ids: "distinct (map id' (queue (tick k r pg)))
      \<and> list_all (\<lambda>i. i < nextUUID (tick k r pg)) (map id' (queue (tick k r pg)))
      \<and> distinct (map id' (rendered (tick k r pg)))
      \<and> list_all (\<lambda>i. i < nextUUID (tick k r pg)) (map id' (rendered (tick k r pg)))"
    using inv tick_nextUUID [of pg k r]
    by (auto simp: tick_ids tick_rendered pageInv_def list_all_iff)
  have ps: "length (passes (tick k r pg)) \<le> 1
      \<and> processingRef (tick k r pg) = (passes (tick k r pg) \<noteq> [])"
  proof (cases "k < length (passes pg)")
    case False
    with inv show ?thesis by (simp add: tick_def pageInv_def)
  next
    case True
    with inv obtain ps where one: "passes pg = [ps]" and k: "k = 0"
      by (cases "passes pg") (auto simp: pageInv_def)
    from inv one k show ?thesis
      by (simp add: pageInv_def tick_def Let_def continuePass_def simulateConversion_def
          showToast_def split: list.splits)
  qed
  from ids ps show ?thesis by (simp add: pageInv_def)
qed

lemma pageInv_step: "pageInv pg \<Longrightarrow> pageInv (pageStep a pg)"
  by (cases a)
    (simp_all add: pageStep_def pageInv_addFiles pageInv_clickRemove pageInv_clearCompleted
      pageInv_startProcessing pageInv_tick pageInv_render)

lemma pageInv_run: "pageInv pg \<Longrightarrow> pageInv (pageRun as pg)"
  by (induction as arbitrary: pg) (simp_all add: pageInv_step)

lemma simulated_grows: "\<exists>x. simulated (pageStep a pg) = simulated pg @ x"
  by (cases a)
    (auto simp: pageStep_def addFiles_def showToast_def startProcessing_def continuePass_def
      simulateConversion_def tick_def removeItem_def clickRemove_def clearCompleted_def
      render_def Let_def split: list.splits)

lemma simulated_grows_run: "\<exists>x. simulated (pageRun as pg) = simulated pg @ x"
proof (induction as arbitrary: pg)
  case Nil
  show ?case by simp
next
  case (Cons a as)
  from simulated_grows [of a pg] obtain x where "simulated (pageStep a pg) = simulated pg @ x" ..
  moreover from Cons [of "pageStep a pg"] obtain y
    where "simulated (pageRun as (pageStep a pg)) = simulated (pageStep a pg) @ y" ..
  ultimately show ?case by simp
qed

lemma passMid_start:
  assumes "pageInv pg" and "\<not> processingRef pg"
    and "S = filter (\<lambda>q. status q = Queued) (rendered pg)" and "S \<noteq> []"
  shows "passMid S (simulated pg) 0 (startProcessing pg)"
proof -
  from assms(4) obtain item rest where S: "S = item # rest" by (cases S) auto
  from assms(1,2) have idle: "passes pg = []" by (simp add: pageInv_def)
  from assms(1) have "distinct (map id' (rendered pg))"
    and "list_all (\<lambda>i. i < nextUUID pg) (map id' (rendered pg))"
    by (simp_all add: pageInv_def)
  then have d: "distinct (map id' S)" and b: "list_all (\<lambda>i. i < Suc (nextUUID pg)) (map id' S)"
    by (auto simp: assms(3) distinct_map_filter list_all_iff)
  from assms(2) idle S assms(3) [symmetric]
  have "processingRef (startProcessing pg)"
    and "passes (startProcessing pg) = [\<lparr>queuedItems = S, awaiting = S ! 0, remaining = drop (Suc 0) S\<rparr>]"
    and "simulated (startProcessing pg) = simulated pg @ take (Suc 0) S"
    and "nextUUID (startProcessing pg) = Suc (nextUUID pg)"
    by (simp_all add: startProcessing_def continuePass_def showToast_def simulateConversion_def
        Let_def)
  with d b S show ?thesis by (simp add: passMid_def)
qed

lemma passMid_other:
  assumes "passMid S base c pg" and "\<not> completing a"
  shows "passMid S base c (pageStep a pg)"
proof (cases a)
  case (AddFiles fs)
  from assms(1) have b: "\<forall>i\<in>set (map id' S). i < nextUUID pg"
    by (simp add: passMid_def list_all_iff)
  have new: "\<forall>q\<in>set (newItems (nextUUID pg) fs). id' q \<notin> set (map id' (take c S))"
  proof
    fix q assume "q \<in> set (newItems (nextUUID pg) fs)"
    then have "nextUUID pg \<le> id' q" by (simp add: newItems_status)
    moreover have "set (map id' (take c S)) \<subseteq> set (map id' S)"
      by (auto dest: in_set_takeD)
    ultimately show "id' q \<notin> set (map id' (take c S))" using b by fastforce
  qed
  with assms(1) AddFiles show ?thesis
    by (auto simp: passMid_def pageStep_def addFiles_def showToast_def list_all_iff)
next
  case StartProcessing
  with assms(1) show ?thesis
    by (simp add: passMid_def pageStep_def startProcessing_def)
next
  case (ClickRemove i)
  with assms(1) show ?thesis
    by (auto simp: passMid_def pageStep_def clickRemove_def removeItem_def)
next
  case ClearCompleted
  with assms(1) show ?thesis
    by (auto simp: passMid_def pageStep_def clearCompleted_def showToast_def Let_def list_all_iff)
next
  case Render
  with assms(1) show ?thesis
    by (simp add: passMid_def pageStep_def render_def)
next
  case (Tick k r)
  show ?thesis
  proof (cases "k = 0")
    case False
    with assms(1) Tick show ?thesis
      by (simp add: passMid_def pageStep_def tick_def)
  next
    case True
    with assms(2) Tick have r: "\<not> 100 \<le> min (r * 100) 100"
      by (simp add: completing_def)
    from assms(1) have c: "c < length S" and d: "distinct (map id' S)"
      by (simp_all add: passMid_def)
    have notin: "id' (S ! c) \<notin> set (map id' (take c S))"
    proof
      assume "id' (S ! c) \<in> set (map id' (take c S))"
      then obtain j where "j < c" and "id' (S ! j) = id' (S ! c)"
        using c by (auto simp: in_set_conv_nth)
      with c d show False
        by (auto simp: distinct_conv_nth)
    qed
    from assms(1) Tick True r notin show ?thesis
      by (auto simp: passMid_def pageStep_def tick_def Let_def)
  qed
qed

lemma passMid_next:
  assumes "passMid S base c pg" and "completing a" and "Suc c < length S"
  shows "passMid S base (Suc c) (pageStep a pg)"
proof -
  from assms(2) obtain r where a: "a = Tick 0 r" and r: "100 \<le> min (r * 100) 100"
    by (cases a) (auto simp: completing_def)
  from assms(3) have dr: "drop (Suc c) S = S ! Suc c # drop (Suc (Suc c)) S"
    by (simp add: Cons_nth_drop_Suc)
  from assms(3) have tk: "take (Suc (Suc c)) S = take (Suc c) S @ [S ! Suc c]"
    by (simp add: take_Suc_conv_app_nth)
  from assms(3) have tk': "take (Suc c) S = take c S @ [S ! c]"
    by (simp add: take_Suc_conv_app_nth)
  from assms(1) a r dr
  have "processingRef (pageStep a pg)"
    and "passes (pageStep a pg)
        = [\<lparr>queuedItems = S, awaiting = S ! Suc c, remaining = drop (Suc (Suc c)) S\<rparr>]"
    and "simulated (pageStep a pg) = base @ take (Suc (Suc c)) S"
    and "nextUUID (pageStep a pg) = nextUUID pg"
    by (simp_all add: passMid_def pageStep_def tick_def Let_def continuePass_def
        simulateConversion_def tk)
  moreover from assms(1) a r
  have "\<forall>q\<in>set (queue (pageStep a pg)).
      id' q \<in> set (map id' (take (Suc c) S)) \<longrightarrow> status q = Completed"
    by (auto simp: passMid_def pageStep_def tick_def Let_def continuePass_def
        simulateConversion_def dr tk')
  ultimately show ?thesis
    using assms(1,3) by (simp add: passMid_def)
qed

lemma passMid_finish:
  assumes "passMid S base c pg" and "completing a" and "Suc c = length S"
  shows "\<not> processingRef (pageStep a pg) \<and> passes (pageStep a pg) = []
    \<and> simulated (pageStep a pg) = base @ S
    \<and> (\<forall>q\<in>set (queue (pageStep a pg)). id' q \<in> set (map id' S) \<longrightarrow> status q = Completed)"
proof -
  from assms(2) obtain r where a: "a = Tick 0 r" and r: "100 \<le> min (r * 100) 100"
    by (cases a) (auto simp: completing_def)
  from assms(3) have dr: "drop (Suc c) S = []" and tk: "take (Suc c) S = S"
    by simp_all
  from assms(3) have S: "S = take c S @ [S ! c]"
    by (metis lessI list.size(3) nat.simps(3) take_Suc_conv_app_nth tk)
  from assms(1) a r dr tk
  have "\<not> processingRef (pageStep a pg)" and "passes (pageStep a pg) = []"
    and "simulated (pageStep a pg) = base @ S"
    by (simp_all add: passMid_def pageStep_def tick_def Let_def continuePass_def showToast_def)
  moreover have "\<forall>q\<in>set (queue (pageStep a pg)). id' q \<in> set (map id' S) \<longrightarrow> status q = Completed"
  proof
    fix q assume q: "q \<in> set (queue (pageStep a pg))"
    show "id' q \<in> set (map id' S) \<longrightarrow> status q = Completed"
    proof
      assume "id' q \<in> set (map id' S)"
      then have "id' q \<in> set (map id' (take c S @ [S ! c]))" using S by simp
      then have "id' q \<in> set (map id' (take c S)) \<or> id' q = id' (S ! c)" by auto
      with assms(1) a r dr q show "status q = Completed"
        by (auto simp: passMid_def pageStep_def tick_def Let_def continuePass_def showToast_def)
    qed
  qed
  ultimately show ?thesis by simp
qed

lemma completions_Cons: "completions (a # bs) = (if completing a then Suc (completions bs) else completions bs)"
  by (simp add: completions_def)

lemma completions_append: "completions (as @ bs) = completions as + completions bs"
  by (simp add: completions_def)

lemma passMid_run:
  "passMid S base c pg \<Longrightarrow> c + completions bs < length S
    \<Longrightarrow> passMid S base (c + completions bs) (pageRun bs pg)"
proof (induction bs arbitrary: c pg)
  case Nil
  then show ?case by (simp add: completions_def)
next
  case (Cons a bs)
  show ?case
  proof (cases "completing a")
    case True
    with Cons.prems have "passMid S base (Suc c) (pageStep a pg)"
      by (intro passMid_next) (simp_all add: completions_Cons)
    from Cons.IH [OF this] Cons.prems(2) True show ?thesis
      by (simp add: completions_Cons)
  next
    case False
    with Cons.prems have "passMid S base c (pageStep a pg)"
      by (intro passMid_other)
    from Cons.IH [OF this] Cons.prems(2) False show ?thesis
      by (simp add: completions_Cons)
  qed
qed

lemma untouched_step:
  assumes "passMid S base c pg" and "untouched Q S pg"
  shows "untouched Q S (pageStep a pg)"
proof (cases a)
  case (AddFiles fs)
  have "\<forall>q\<in>set (newItems u fs). status q = Queued \<and> item_progress q = 0" for u
    by (induction fs arbitrary: u) auto
  with assms(2) AddFiles show ?thesis
    by (auto simp: untouched_def pageStep_def addFiles_def showToast_def)
next
  case StartProcessing
  with assms show ?thesis
    by (simp add: untouched_def passMid_def pageStep_def startProcessing_def)
next
  case (ClickRemove i)
  with assms(2) show ?thesis
    by (auto simp: untouched_def pageStep_def clickRemove_def removeItem_def)
next
  case ClearCompleted
  with assms(2) show ?thesis
    by (auto simp: untouched_def pageStep_def clearCompleted_def showToast_def Let_def)
next
  case Render
  with assms(2) show ?thesis
    by (simp add: untouched_def pageStep_def render_def)
next
  case (Tick k r)
  from assms(1) have c: "c < length S"
    and ps: "passes pg = [\<lparr>queuedItems = S, awaiting = S ! c, remaining = drop (Suc c) S\<rparr>]"
    by (simp_all add: passMid_def)
  from c have mem: "id' (S ! c) \<in> set (map id' S)"
    by simp
  have q: "set (queue (pageStep a pg)) \<subseteq> set (queue pg) \<union> {q. id' q = id' (S ! c)}"
    using Tick ps
    by (auto simp: pageStep_def tick_def Let_def continuePass_def simulateConversion_def
        showToast_def split: list.splits if_splits)
  show ?thesis
    unfolding untouched_def
  proof (intro ballI impI)
    fix q assume "q \<in> set (queue (pageStep a pg))" and out: "id' q \<notin> set (map id' S)"
    with q mem have "q \<in> set (queue pg)" by auto
    with assms(2) out show "q \<in> set Q \<or> (status q = Queued \<and> item_progress q = 0)"
      by (simp add: untouched_def)
  qed
qed

lemma untouched_run:
  "passMid S base c pg \<Longrightarrow> untouched Q S pg \<Longrightarrow> c + completions bs < length S
    \<Longrightarrow> untouched Q S (pageRun bs pg)"
proof (induction bs arbitrary: c pg)
  case Nil
  then show ?case by simp
next
  case (Cons a bs)
  from Cons.prems(1,2) have u: "untouched Q S (pageStep a pg)"
    by (rule untouched_step)
  show ?case
  proof (cases "completing a")
    case True
    with Cons.prems have "passMid S base (Suc c) (pageStep a pg)"
      by (intro passMid_next) (simp_all add: completions_Cons)
    from Cons.IH [OF this u] Cons.prems(3) True show ?thesis
      by (simp add: completions_Cons)
  next
    case False
    with Cons.prems have "passMid S base c (pageStep a pg)"
      by (intro passMid_other)
    from Cons.IH [OF this u] Cons.prems(3) False show ?thesis
      by (simp add: completions_Cons)
  qed
qed

lemma pass_prefix:
  "passMid S base c pg
    \<Longrightarrow> \<exists>more. simulated (pageRun bs pg) = base @ take (Suc (c + completions bs)) S @ more"
proof (induction bs arbitrary: c pg)
  case Nil
  then show ?case by (simp add: completions_def passMid_def)
next
  case (Cons a bs)
  show ?case
  proof (cases "completing a")
    case False
    with Cons.prems have "passMid S base c (pageStep a pg)"
      by (intro passMid_other)
    from Cons.IH [OF this] False show ?thesis
      by (simp add: completions_Cons)
  next
    case True
    show ?thesis
    proof (cases "Suc c < length S")
      case True
      with Cons.prems \<open>completing a\<close> have "passMid S base (Suc c) (pageStep a pg)"
        by (intro passMid_next)
      from Cons.IH [OF this] \<open>completing a\<close> show ?thesis
        by (simp add: completions_Cons)
    next
      case False
      with Cons.prems have "Suc c = length S" by (simp add: passMid_def)
      with Cons.prems \<open>completing a\<close> have "simulated (pageStep a pg) = base @ S"
        by (simp add: passMid_finish)
      moreover from simulated_grows_run [of bs "pageStep a pg"] obtain x
        where "simulated (pageRun bs (pageStep a pg)) = simulated (pageStep a pg) @ x" ..
      ultimately show ?thesis using \<open>completing a\<close> \<open>Suc c = length S\<close>
        by (simp add: completions_Cons)
    qed
  qed
qed

lemmas page_defs = pageStep_def addFiles_def showToast_def startProcessing_def continuePass_def
  simulateConversion_def tick_def removeItem_def clickRemove_def removeButtonShown_def
  clearCompleted_def render_def Let_def emptyPage_def

text \<open>
  C7 (as amended). From any state the page can reach with no pass underway, call
  \<open>startProcessing\<close> and let anything happen afterwards (files added, rows removed, timers
  firing, renders, further starts). \<open>S\<close> is the snapshot the call takes: the jobs that are
  queued in the queue of the last render, in queue order.

  \<^item> There is never a second suspended pass, and a start while \<open>processingRef\<close> is set
    changes nothing.
  \<^item> \<open>S\<close> holds each job once.
  \<^item> While fewer timers have completed than \<open>S\<close> has jobs, say \<open>c\<close>, the pass is suspended
    on job \<open>c\<close> of \<open>S\<close>; the conversions started since the call are exactly jobs
    \<open>0 .. c\<close> of \<open>S\<close>, in that order; the first \<open>c\<close> jobs of \<open>S\<close> are completed, as far as
    they are still in the queue; and every job outside \<open>S\<close> is as it was at the call or as
    it was added (queued, no progress).
  \<^item> At any later moment the conversions started since the call begin with that prefix of
    \<open>S\<close>.
  \<^item> When the last job of \<open>S\<close> completes (or at once if \<open>S\<close> is empty) the pass is over: no
    pass is suspended, \<open>processingRef\<close> is clear, the conversions started since the call
    are exactly \<open>S\<close>, every job of \<open>S\<close> still in the queue is completed, and every job
    outside \<open>S\<close> is as it was at the call or as it was added.
  \<^item> When the queue has not changed since the last render, \<open>S\<close> is the list of jobs that are
    queued at the call.
\<close>

theorem start_single_pass:
  assumes "pg = pageRun as emptyPage" and "\<not> processingRef pg"
    and "S = filter (\<lambda>q. status q = Queued) (rendered pg)"
    and "pg' = pageRun bs (startProcessing pg)"
  shows "length (passes pg') \<le> 1
    \<and> (processingRef pg' \<longrightarrow> startProcessing pg' = pg')
    \<and> distinct (map id' S)
    \<and> (completions bs < length S \<longrightarrow>
          processingRef pg'
          \<and> passes pg' = [\<lparr>queuedItems = S, awaiting = S ! completions bs,
                            remaining = drop (Suc (completions bs)) S\<rparr>]
          \<and> simulated pg' = simulated pg @ take (Suc (completions bs)) S
          \<and> (\<forall>q\<in>set (queue pg'). id' q \<in> set (map id' (take (completions bs) S))
                \<longrightarrow> status q = Completed)
          \<and> (\<forall>q\<in>set (queue pg'). id' q \<notin> set (map id' S)
                \<longrightarrow> q \<in> set (queue pg) \<or> (status q = Queued \<and> item_progress q = 0)))
    \<and> (\<exists>more. simulated pg' = simulated pg @ take (Suc (completions bs)) S @ more)
    \<and> ((S = [] \<and> bs = [])
         \<or> (\<exists>bs1 r. bs = bs1 @ [Tick 0 r] \<and> 1 \<le> r \<and> Suc (completions bs1) = length S) \<longrightarrow>
          \<not> processingRef pg' \<and> passes pg' = []
          \<and> simulated pg' = simulated pg @ S
          \<and> (\<forall>q\<in>set (queue pg'). id' q \<in> set (map id' S) \<longrightarrow> status q = Completed)
          \<and> (\<forall>q\<in>set (queue pg'). id' q \<notin> set (map id' S)
                \<longrightarrow> q \<in> set (queue pg) \<or> (status q = Queued \<and> item_progress q = 0)))
    \<and> (rendered pg = queue pg \<longrightarrow> S = filter (\<lambda>q. status q = Queued) (queue pg))"
proof -
  from assms(1) have inv: "pageInv pg"
    by (simp add: pageInv_run pageInv_empty)
  then have "pageInv (startProcessing pg)"
    by (rule pageInv_startProcessing)
  with assms(4) have "pageInv pg'"
    by (simp add: pageInv_run)
  then have 1: "length (passes pg') \<le> 1"
    by (simp add: pageInv_def)
  have 2: "processingRef pg' \<longrightarrow> startProcessing pg' = pg'"
    by (simp add: startProcessing_def)
  from inv have 3: "distinct (map id' S)"
    by (simp add: assms(3) pageInv_def distinct_map_filter)
  from inv assms(2) have idle: "passes pg = []"
    by (simp add: pageInv_def)
  have same: "queue (startProcessing pg) = queue pg"
    using assms(2)
    by (simp add: startProcessing_def continuePass_def showToast_def simulateConversion_def
        Let_def split: list.splits)
  then have frame: "untouched (queue pg) S (startProcessing pg)"
    by (simp add: untouched_def)
  have empty: "S = [] \<Longrightarrow> \<not> processingRef (startProcessing pg)
      \<and> passes (startProcessing pg) = [] \<and> simulated (startProcessing pg) = simulated pg"
    using assms(2,3) idle
    by (simp add: startProcessing_def continuePass_def showToast_def Let_def)
  have mid: "S \<noteq> [] \<Longrightarrow> passMid S (simulated pg) 0 (startProcessing pg)"
    using inv assms(2,3) by (rule passMid_start)
  have 4: "completions bs < length S \<longrightarrow>
          processingRef pg'
          \<and> passes pg' = [\<lparr>queuedItems = S, awaiting = S ! completions bs,
                            remaining = drop (Suc (completions bs)) S\<rparr>]
          \<and> simulated pg' = simulated pg @ take (Suc (completions bs)) S
          \<and> (\<forall>q\<in>set (queue pg'). id' q \<in> set (map id' (take (completions bs) S))
                \<longrightarrow> status q = Completed)
          \<and> (\<forall>q\<in>set (queue pg'). id' q \<notin> set (map id' S)
                \<longrightarrow> q \<in> set (queue pg) \<or> (status q = Queued \<and> item_progress q = 0))"
  proof
    assume c: "completions bs < length S"
    then have "S \<noteq> []" by auto
    then have m: "passMid S (simulated pg) 0 (startProcessing pg)" by (rule mid)
    from passMid_run [OF m, of bs] c
    have "passMid S (simulated pg) (completions bs) pg'"
      by (simp add: assms(4))
    then have a: "processingRef pg'"
      and b: "passes pg' = [\<lparr>queuedItems = S, awaiting = S ! completions bs,
                            remaining = drop (Suc (completions bs)) S\<rparr>]"
      and d: "simulated pg' = simulated pg @ take (Suc (completions bs)) S"
      and e: "\<forall>q\<in>set (queue pg'). id' q \<in> set (map id' (take (completions bs) S))
                \<longrightarrow> status q = Completed"
      by (simp_all add: passMid_def)
    from untouched_run [OF m frame, of bs] c
    have "untouched (queue pg) S pg'"
      by (simp add: assms(4))
    then have f: "\<forall>q\<in>set (queue pg'). id' q \<notin> set (map id' S)
                \<longrightarrow> q \<in> set (queue pg) \<or> (status q = Queued \<and> item_progress q = 0)"
      by (simp add: untouched_def)
    show "processingRef pg'
          \<and> passes pg' = [\<lparr>queuedItems = S, awaiting = S ! completions bs,
                            remaining = drop (Suc (completions bs)) S\<rparr>]
          \<and> simulated pg' = simulated pg @ take (Suc (completions bs)) S
          \<and> (\<forall>q\<in>set (queue pg'). id' q \<in> set (map id' (take (completions bs) S))
                \<longrightarrow> status q = Completed)
          \<and> (\<forall>q\<in>set (queue pg'). id' q \<notin> set (map id' S)
                \<longrightarrow> q \<in> set (queue pg) \<or> (status q = Queued \<and> item_progress q = 0))"
      by (intro conjI a b d e f)
  qed
  have 5: "\<exists>more. simulated pg' = simulated pg @ take (Suc (completions bs)) S @ more"
  proof (cases "S = []")
    case True
    with empty simulated_grows_run [of bs "startProcessing pg"] show ?thesis
      by (simp add: assms(4))
  next
    case False
    then have "passMid S (simulated pg) 0 (startProcessing pg)" by (rule mid)
    from pass_prefix [OF this, of bs] show ?thesis
      by (simp add: assms(4))
  qed
  have 6: "(S = [] \<and> bs = [])
         \<or> (\<exists>bs1 r. bs = bs1 @ [Tick 0 r] \<and> 1 \<le> r \<and> Suc (completions bs1) = length S) \<longrightarrow>
          \<not> processingRef pg' \<and> passes pg' = []
          \<and> simulated pg' = simulated pg @ S
          \<and> (\<forall>q\<in>set (queue pg'). id' q \<in> set (map id' S) \<longrightarrow> status q = Completed)
          \<and> (\<forall>q\<in>set (queue pg'). id' q \<notin> set (map id' S)
                \<longrightarrow> q \<in> set (queue pg) \<or> (status q = Queued \<and> item_progress q = 0))"
  proof (intro impI, elim disjE exE conjE)
    assume "S = []" and "bs = []"
    with empty same show "\<not> processingRef pg' \<and> passes pg' = []
          \<and> simulated pg' = simulated pg @ S
          \<and> (\<forall>q\<in>set (queue pg'). id' q \<in> set (map id' S) \<longrightarrow> status q = Completed)
          \<and> (\<forall>q\<in>set (queue pg'). id' q \<notin> set (map id' S)
                \<longrightarrow> q \<in> set (queue pg) \<or> (status q = Queued \<and> item_progress q = 0))"
      by (simp add: assms(4))
  next
    fix bs1 r
    assume bs: "bs = bs1 @ [Tick 0 r]" and r: "1 \<le> r" and c: "Suc (completions bs1) = length S"
    let ?mid = "pageRun bs1 (startProcessing pg)"
    from c have "S \<noteq> []" by auto
    then have m: "passMid S (simulated pg) 0 (startProcessing pg)" by (rule mid)
    from passMid_run [OF m, of bs1] c
    have pm: "passMid S (simulated pg) (completions bs1) ?mid"
      by simp
    from untouched_run [OF m frame, of bs1] c
    have "untouched (queue pg) S ?mid"
      by simp
    with pm have "untouched (queue pg) S (pageStep (Tick 0 r) ?mid)"
      by (rule untouched_step)
    then have f: "\<forall>q\<in>set (queue (pageStep (Tick 0 r) ?mid)). id' q \<notin> set (map id' S)
                \<longrightarrow> q \<in> set (queue pg) \<or> (status q = Queued \<and> item_progress q = 0)"
      by (simp add: untouched_def)
    from r have "completing (Tick 0 r)"
      by (simp add: completing_def)
    with pm have "\<not> processingRef (pageStep (Tick 0 r) ?mid)
      \<and> passes (pageStep (Tick 0 r) ?mid) = []
      \<and> simulated (pageStep (Tick 0 r) ?mid) = simulated pg @ S
      \<and> (\<forall>q\<in>set (queue (pageStep (Tick 0 r) ?mid)).
            id' q \<in> set (map id' S) \<longrightarrow> status q = Completed)"
      using c by (rule passMid_finish)
    moreover have "pg' = pageStep (Tick 0 r) ?mid"
      by (simp add: assms(4) bs pageRun_append)
    ultimately show "\<not> processingRef pg' \<and> passes pg' = []
          \<and> simulated pg' = simulated pg @ S
          \<and> (\<forall>q\<in>set (queue pg'). id' q \<in> set (map id' S) \<longrightarrow> status q = Completed)
          \<and> (\<forall>q\<in>set (queue pg'). id' q \<notin> set (map id' S)
                \<longrightarrow> q \<in> set (queue pg) \<or> (status q = Queued \<and> item_progress q = 0))"
      using f by simp
  qed
  have 7: "rendered pg = queue pg \<longrightarrow> S = filter (\<lambda>q. status q = Queued) (queue pg)"
    by (simp add: assms(3))
  show ?thesis by (intro conjI 1 2 3 4 5 6 7)
qed

theorem start_single_pass_witness:
  "\<not> processingRef (pageRun twoQueued emptyPage)
   \<and> rendered (pageRun twoQueued emptyPage) = queue (pageRun twoQueued emptyPage)
   \<and> map id' (filter (\<lambda>q. status q = Queued) (queue (pageRun twoQueued emptyPage))) = [0, 1]
   \<and> completions [StartProcessing, Tick 0 (1 / 2), AddFiles [demoFile], Tick 0 1] = 1
   \<and> map id' (simulated (pageRun [StartProcessing, Tick 0 (1 / 2), AddFiles [demoFile], Tick 0 1]
        (startProcessing (pageRun twoQueued emptyPage)))) = [0, 1]
   \<and> length (passes (pageRun [StartProcessing, Tick 0 (1 / 2), AddFiles [demoFile], Tick 0 1]
        (startProcessing (pageRun twoQueued emptyPage)))) \<le> 1
   \<and> simulated (pageRun ([StartProcessing, Tick 0 (1 / 2), AddFiles [demoFile], Tick 0 1] @ [Tick 0 1])
        (startProcessing (pageRun twoQueued emptyPage)))
      = filter (\<lambda>q. status q = Queued) (rendered (pageRun twoQueued emptyPage))
   \<and> map id' (queue (pageRun ([StartProcessing, Tick 0 (1 / 2), AddFiles [demoFile], Tick 0 1] @ [Tick 0 1])
        (startProcessing (pageRun twoQueued emptyPage)))) = [0, 1, 4]
   \<and> map status (queue (pageRun ([StartProcessing, Tick 0 (1 / 2), AddFiles [demoFile], Tick 0 1] @ [Tick 0 1])
        (startProcessing (pageRun twoQueued emptyPage)))) = [Completed, Completed, Queued]"
proof -
  let ?pg = "pageRun twoQueued emptyPage"
  let ?bs = "[StartProcessing, Tick 0 (1 / 2), AddFiles [demoFile], Tick 0 1]"
  have idle: "\<not> processingRef ?pg"
    by (simp add: twoQueued_def page_defs)
  have fresh: "rendered ?pg = queue ?pg"
    by (simp add: twoQueued_def page_defs)
  have S: "map id' (filter (\<lambda>q. status q = Queued) (queue ?pg)) = [0, 1]"
    by (simp add: twoQueued_def page_defs)
  have c: "completions ?bs = 1"
    by (simp add: completions_def completing_def)
  have len: "Suc (completions ?bs) = length (filter (\<lambda>q. status q = Queued) (rendered ?pg))"
    by (simp add: completions_def completing_def twoQueued_def page_defs)
  have sim: "map id' (simulated (pageRun ?bs (startProcessing ?pg))) = [0, 1]"
    by (simp add: twoQueued_def page_defs)
  from start_single_pass [OF refl idle refl refl, of ?bs]
  have one: "length (passes (pageRun ?bs (startProcessing ?pg))) \<le> 1"
    by (rule conjunct1)
  have "simulated ?pg = []"
    by (simp add: twoQueued_def page_defs)
  moreover from start_single_pass [OF refl idle refl refl, of "?bs @ [Tick 0 1]"] len
  have "simulated (pageRun (?bs @ [Tick 0 1]) (startProcessing ?pg))
      = simulated ?pg @ filter (\<lambda>q. status q = Queued) (rendered ?pg)"
    by blast
  ultimately have all: "simulated (pageRun (?bs @ [Tick 0 1]) (startProcessing ?pg))
      = filter (\<lambda>q. status q = Queued) (rendered ?pg)"
    by simp
  have q: "map id' (queue (pageRun (?bs @ [Tick 0 1]) (startProcessing ?pg))) = [0, 1, 4]"
    by (simp add: twoQueued_def page_defs)
  have st: "map status (queue (pageRun (?bs @ [Tick 0 1]) (startProcessing ?pg)))
      = [Completed, Completed, Queued]"
    by (simp add: twoQueued_def page_defs)
  show ?thesis by (intro conjI idle fresh S c sim one all q st)
qed

text \<open>
  C7 as stated fails. One file is added and a pass is started; the first tick of its timer
  comes when the whole duration has elapsed and completes the job, which ends the pass.
  The page has not been drawn again yet: the Start button is still there and the handler
  behind it still holds the queue in which the job is queued. A click starts a pass that
  converts the job again, although no job is queued when it is invoked.
\<close>

theorem stale_start_repeats_job:
  "\<not> processingRef staleDonePage
   \<and> passes staleDonePage = []
   \<and> startButtonShown staleDonePage
   \<and> map status (queue staleDonePage) = [Completed]
   \<and> filter (\<lambda>q. status q = Queued) (queue staleDonePage) = []
   \<and> map id' (simulated staleDonePage) = [0]
   \<and> map id' (simulated (startProcessing staleDonePage)) = [0, 0]
   \<and> processingRef (startProcessing staleDonePage)
   \<and> map (\<lambda>ps. id' (awaiting ps)) (passes (startProcessing staleDonePage)) = [0]"
  by (simp add: staleDonePage_def startButtonShown_def page_defs)

lemma decimal_1: "decimal (Suc 0) = ''1''"
  by code_simp

text \<open>
  C8 (as amended). \<open>clearCompleted()\<close> evaluates to \<open>undefined\<close>. It keeps exactly the jobs
  of the current queue whose status is not completed, unchanged and in order, and shows
  the info toast "Cleared n completed file(s)", where \<open>n\<close> is the number of completed jobs
  in the queue of the last render; when the queue has not changed since that render, \<open>n\<close>
  is the number of jobs removed. A pass under way is not touched.
\<close>

theorem clear_completed:
  "fst (clearCompleted pg) = Undefined
   \<and> queue (snd (clearCompleted pg)) = filter (\<lambda>q. status q \<noteq> Completed) (queue pg)
   \<and> toasts (snd (clearCompleted pg))
        = toasts pg @
          [\<lparr>toast_id = nextUUID pg, toast_type = Info,
            message = ''Cleared ''
              @ decimal (length (filter (\<lambda>q. status q = Completed) (rendered pg)))
              @ '' completed file''
              @ plural (length (filter (\<lambda>q. status q = Completed) (rendered pg)))\<rparr>]
   \<and> (rendered pg = queue pg \<longrightarrow>
        length (filter (\<lambda>q. status q = Completed) (rendered pg))
          = length (queue pg) - length (queue (snd (clearCompleted pg))))
   \<and> passes (snd (clearCompleted pg)) = passes pg
   \<and> processingRef (snd (clearCompleted pg)) = processingRef pg
   \<and> simulated (snd (clearCompleted pg)) = simulated pg
   \<and> rendered (snd (clearCompleted pg)) = rendered pg"
proof -
  have "length (queue pg)
      = length (filter (\<lambda>q. status q = Completed) (queue pg))
        + length (filter (\<lambda>q. status q \<noteq> Completed) (queue pg))"
    by (simp add: sum_length_filter_compl)
  then show ?thesis
    by (simp add: clearCompleted_def showToast_def Let_def)
qed

theorem clear_completed_witness:
  "rendered oneDonePage = queue oneDonePage
   \<and> map id' (queue oneDonePage) = [0, 1]
   \<and> map id' (queue (snd (clearCompleted oneDonePage))) = [1]
   \<and> length (filter (\<lambda>q. status q = Completed) (rendered oneDonePage))
        = length (queue oneDonePage) - length (queue (snd (clearCompleted oneDonePage)))
   \<and> message (last (toasts (snd (clearCompleted oneDonePage)))) = ''Cleared 1 completed file''"
proof -
  have fresh: "rendered oneDonePage = queue oneDonePage"
    by (simp add: oneDonePage_def page_defs)
  have ids: "map id' (queue oneDonePage) = [0, 1]"
    by (simp add: oneDonePage_def page_defs)
  have left: "map id' (queue (snd (clearCompleted oneDonePage))) = [1]"
    by (simp add: oneDonePage_def page_defs)
  from clear_completed [of oneDonePage] fresh
  have n: "length (filter (\<lambda>q. status q = Completed) (rendered oneDonePage))
        = length (queue oneDonePage) - length (queue (snd (clearCompleted oneDonePage)))"
    by blast
  have "length (filter (\<lambda>q. status q = Completed) (rendered oneDonePage)) = 1"
    by (simp add: oneDonePage_def page_defs)
  then have msg: "message (last (toasts (snd (clearCompleted oneDonePage)))) = ''Cleared 1 completed file''"
    by (simp add: clearCompleted_def showToast_def Let_def plural_def decimal_1)
  show ?thesis by (intro conjI fresh ids left n msg)
qed

text \<open>
  C8 as stated fails: one job of two is completed and drawn as such, the Clear Completed
  button is there, one job is removed and the call does not return 1.
\<close>

theorem clear_completed_returns_nothing:
  "clearButtonShown oneDonePage
   \<and> rendered oneDonePage = queue oneDonePage
   \<and> length (filter (\<lambda>q. status q = Completed) (queue oneDonePage)) = 1
   \<and> length (queue oneDonePage) = 2
   \<and> length (queue (snd (clearCompleted oneDonePage))) = 1
   \<and> fst (clearCompleted oneDonePage) \<noteq> Count 1"
  by (simp add: oneDonePage_def clearButtonShown_def page_defs)

text \<open>
  The count in the toast is the one of the last render. Here the second of two jobs has
  completed since the first was drawn as completed: two jobs are removed and the toast
  says one.
\<close>

lemma stale_clear_count:
  "clearButtonShown staleTwoDonePage
   \<and> map status (rendered staleTwoDonePage) = [Completed, Queued]
   \<and> map status (queue staleTwoDonePage) = [Completed, Completed]
   \<and> queue (snd (clearCompleted staleTwoDonePage)) = []
   \<and> message (last (toasts (snd (clearCompleted staleTwoDonePage)))) = ''Cleared 1 completed file''"
proof -
  have r: "map status (rendered staleTwoDonePage) = [Completed, Queued]"
    and q: "map status (queue staleTwoDonePage) = [Completed, Completed]"
    by (simp_all add: staleTwoDonePage_def oneDonePage_def page_defs)
  from r have shown: "clearButtonShown staleTwoDonePage"
    by (auto simp: clearButtonShown_def list_ex_iff)
  from q have gone: "queue (snd (clearCompleted staleTwoDonePage)) = []"
    by (auto simp: clearCompleted_def showToast_def Let_def filter_empty_conv)
  have "length (filter (\<lambda>q. status q = Completed) (rendered staleTwoDonePage)) = 1"
    by (simp add: staleTwoDonePage_def oneDonePage_def page_defs)
  then have msg: "message (last (toasts (snd (clearCompleted staleTwoDonePage))))
      = ''Cleared 1 completed file''"
    by (simp add: clearCompleted_def showToast_def Let_def plural_def decimal_1)
  show ?thesis by (intro conjI r q shown gone msg)
qed

text \<open>
  C9 (as amended). \<open>removeItem(id)\<close> checks no status: it drops the job with that
  identifier from the current queue and leaves the passes alone. What keeps a running job
  in the queue is the row's remove button, which is drawn only for a job that is not
  converting in the last render. So for a job of the last render: if it is drawn as
  converting, a click on its row changes nothing; if not, the click removes the job with
  its identifier from the current queue. When the queue has not changed since the last
  render, a click on the row of a converting job changes nothing, and a click on any other
  row removes exactly that job. No click touches a suspended pass.
\<close>

theorem remove_button_gates_removal:
  assumes "pg = pageRun as emptyPage" and "q \<in> set (rendered pg)"
  shows "(status q = Converting \<longrightarrow> clickRemove (id' q) pg = pg)
    \<and> (status q \<noteq> Converting \<longrightarrow>
          queue (clickRemove (id' q) pg) = filter (\<lambda>x. id' x \<noteq> id' q) (queue pg))
    \<and> (rendered pg = queue pg \<longrightarrow>
          queue (clickRemove (id' q) pg)
            = (if status q = Converting then queue pg else filter (\<lambda>x. x \<noteq> q) (queue pg)))
    \<and> queue (removeItem i pg) = filter (\<lambda>x. id' x \<noteq> i) (queue pg)
    \<and> passes (removeItem i pg) = passes pg
    \<and> passes (clickRemove i pg) = passes pg
    \<and> processingRef (clickRemove i pg) = processingRef pg
    \<and> simulated (clickRemove i pg) = simulated pg"
proof -
  from assms(1) have "pageInv pg"
    by (simp add: pageInv_run pageInv_empty)
  then have d: "distinct (map id' (rendered pg))" and dq: "distinct (map id' (queue pg))"
    by (simp_all add: pageInv_def)
  from d assms(2) have same: "\<And>x. x \<in> set (rendered pg) \<Longrightarrow> id' x = id' q \<Longrightarrow> x = q"
    by (auto simp: distinct_map inj_on_def)
  have shown: "list_ex (\<lambda>x. id' x = id' q \<and> removeButtonShown x) (rendered pg)
      \<longleftrightarrow> status q \<noteq> Converting"
    using assms(2) same by (auto simp: list_ex_iff removeButtonShown_def)
  have 1: "status q = Converting \<longrightarrow> clickRemove (id' q) pg = pg"
    by (simp add: clickRemove_def shown)
  have 2: "status q \<noteq> Converting \<longrightarrow>
          queue (clickRemove (id' q) pg) = filter (\<lambda>x. id' x \<noteq> id' q) (queue pg)"
    by (simp add: clickRemove_def shown removeItem_def)
  have 3: "rendered pg = queue pg \<longrightarrow>
          queue (clickRemove (id' q) pg)
            = (if status q = Converting then queue pg else filter (\<lambda>x. x \<noteq> q) (queue pg))"
  proof
    assume fresh: "rendered pg = queue pg"
    with same have "filter (\<lambda>x. id' x \<noteq> id' q) (queue pg) = filter (\<lambda>x. x \<noteq> q) (queue pg)"
      by (intro filter_cong) auto
    then show "queue (clickRemove (id' q) pg)
            = (if status q = Converting then queue pg else filter (\<lambda>x. x \<noteq> q) (queue pg))"
      by (simp add: clickRemove_def shown removeItem_def)
  qed
  have 4: "queue (removeItem i pg) = filter (\<lambda>x. id' x \<noteq> i) (queue pg)"
    and 5: "passes (removeItem i pg) = passes pg"
    and 6: "passes (clickRemove i pg) = passes pg"
    and 7: "processingRef (clickRemove i pg) = processingRef pg"
    and 8: "simulated (clickRemove i pg) = simulated pg"
    by (simp_all add: clickRemove_def removeItem_def)
  show ?thesis by (intro conjI 1 2 3 4 5 6 7 8)
qed

theorem remove_button_gates_removal_witness:
  "rendered convertingPage = queue convertingPage
   \<and> map id' (queue convertingPage) = [0, 1]
   \<and> map status (queue convertingPage) = [Converting, Queued]
   \<and> clickRemove 0 convertingPage = convertingPage
   \<and> map id' (queue (clickRemove 1 convertingPage)) = [0]"
proof -
  have reach: "convertingPage
      = pageRun [AddFiles [demoFile, secondFile], Render, StartProcessing, Render,
          Tick 0 (1 / 2), Render] emptyPage"
    by (simp add: convertingPage_def staleConvertingPage_def pageStep_def)
  have fresh: "rendered convertingPage = queue convertingPage"
    by (simp add: convertingPage_def render_def)
  have ids: "map id' (queue convertingPage) = [0, 1]"
    and sts: "map status (queue convertingPage) = [Converting, Queued]"
    by (simp_all add: convertingPage_def staleConvertingPage_def page_defs)
  have first: "hd (queue convertingPage) \<in> set (rendered convertingPage)"
    and "id' (hd (queue convertingPage)) = 0"
    and "status (hd (queue convertingPage)) = Converting"
    by (simp_all add: convertingPage_def staleConvertingPage_def page_defs)
  with remove_button_gates_removal [OF reach first]
  have stay: "clickRemove 0 convertingPage = convertingPage"
    by simp
  have gone: "map id' (queue (clickRemove 1 convertingPage)) = [0]"
    by (simp add: convertingPage_def staleConvertingPage_def page_defs)
  show ?thesis by (intro conjI fresh ids sts stay gone)
qed

text \<open>
  C9 as stated fails. A pass over two files has been started and the page drawn; then the
  timer of the first job fires, which makes the job converting. Before the page is drawn
  again the row of that job still has its remove button: a click removes the running job
  from the queue, while the pass stays suspended on it.
\<close>

theorem stale_click_removes_running_job:
  "map id' (rendered staleConvertingPage) = [0, 1]
   \<and> map status (rendered staleConvertingPage) = [Queued, Queued]
   \<and> list_all removeButtonShown (rendered staleConvertingPage)
   \<and> map id' (queue staleConvertingPage) = [0, 1]
   \<and> map status (queue staleConvertingPage) = [Converting, Queued]
   \<and> map id' (queue (clickRemove 0 staleConvertingPage)) = [1]
   \<and> clickRemove 0 staleConvertingPage \<noteq> staleConvertingPage
   \<and> map (\<lambda>ps. id' (awaiting ps)) (passes (clickRemove 0 staleConvertingPage)) = [0]"
proof -
  have "map id' (queue (clickRemove 0 staleConvertingPage)) = [1]"
    and "map id' (queue staleConvertingPage) = [0, 1]"
    by (simp_all add: staleConvertingPage_def page_defs)
  then have "clickRemove 0 staleConvertingPage \<noteq> staleConvertingPage"
    by auto
  then show ?thesis
    by (simp add: staleConvertingPage_def page_defs)
qed

text \<open>
  The button goes by the status, not by what a pass is waiting for: the job a pass has
  just started on is still queued until the first tick of its timer, so its row has the
  button, and a click removes the job while the pass stays suspended on it.
\<close>

lemma awaited_job_removable_before_first_tick:
  "rendered justStartedPage = queue justStartedPage
   \<and> map status (queue justStartedPage) = [Queued, Queued]
   \<and> map (\<lambda>ps. id' (awaiting ps)) (passes justStartedPage) = [0]
   \<and> map id' (queue (clickRemove 0 justStartedPage)) = [1]
   \<and> map (\<lambda>ps. id' (awaiting ps)) (passes (clickRemove 0 justStartedPage)) = [0]"
  by (simp add: justStartedPage_def page_defs)

end
